theory Spec2Isabelle
  imports Complex_Main
begin

section \<open>Values of the wire format\<close>

text \<open>
  The server in \<^verbatim>\<open>server.js\<close> reads every inbound payload with \<^verbatim>\<open>JSON.parse\<close> and
  writes every outbound one with \<^verbatim>\<open>JSON.stringify\<close>. A value of type \<open>json\<close> is what
  \<^verbatim>\<open>JSON.parse\<close> returns and what \<^verbatim>\<open>JSON.stringify\<close> is given: an object is the list
  of its own properties, each key once, in insertion order. Numbers are rationals (every
  finite double is one); strings are lists of code units below 256.
\<close>

datatype json =
    JNull
  | JBool bool
  | JNum rat
  | JStr string
  | JArr "json list"
  | JObj "(string \<times> json) list"

text \<open>
  \<^verbatim>\<open>message.key\<close> for the keys the server reads (\<^verbatim>\<open>type\<close>, \<^verbatim>\<open>username\<close>, \<^verbatim>\<open>text\<close>,
  \<^verbatim>\<open>targetClientId\<close>) on a value that is not \<^verbatim>\<open>null\<close>: an own property of an object, and
  \<^verbatim>\<open>undefined\<close> (\<open>None\<close>) in every other case, since no prototype defines these keys.
\<close>

fun field :: "json \<Rightarrow> string \<Rightarrow> json option" where
  "field (JObj kv) k = map_of kv k"
| "field _ k = None"

text \<open>The truthiness JavaScript gives a value in a condition.\<close>

fun truthy :: "json \<Rightarrow> bool" where
  "truthy JNull = False"
| "truthy (JBool b) = b"
| "truthy (JNum r) = (r \<noteq> 0)"
| "truthy (JStr s) = (s \<noteq> [])"
| "truthy (JArr xs) = True"
| "truthy (JObj kv) = True"

text \<open>\<^verbatim>\<open>String.prototype.trim\<close> on code units below 256: tab, LF, VT, FF, CR, space, NBSP.\<close>

definition is_space :: "char \<Rightarrow> bool" where
  "is_space c = (of_char c \<in> {9, 10, 11, 12, 13, 32, 160 :: nat})"

definition trim :: "string \<Rightarrow> string" where
  "trim s = rev (dropWhile is_space (rev (dropWhile is_space s)))"

text \<open>
  Decimal digits of a natural number, as a template literal prints a client id (a
  JavaScript number holds the counter exactly up to \<open>2^53\<close>).
\<close>

fun show_nat :: "nat \<Rightarrow> string" where
  "show_nat n =
     (if n < 10 then [char_of (48 + n)]
      else show_nat (n div 10) @ [char_of (48 + n mod 10)])"

declare show_nat.simps [simp del]

text \<open>
  A number inside a template literal. An integer of absolute value at most \<open>2^53\<close> prints
  as its decimal digits; the printing of every other number is the runtime's, taken here
  as the parameter \<open>fmt\<close>.
\<close>

definition num_str :: "(rat \<Rightarrow> string) \<Rightarrow> rat \<Rightarrow> string" where
  "num_str fmt r =
     (if r = of_int \<lfloor>r\<rfloor> \<and> \<bar>r\<bar> \<le> 2 ^ 53
      then (if r < 0 then ''-'' else []) @ show_nat (nat \<bar>\<lfloor>r\<rfloor>\<bar>)
      else fmt r)"

fun join_comma :: "string list \<Rightarrow> string" where
  "join_comma [] = ''''"
| "join_comma [x] = x"
| "join_comma (x # y # ys) = x @ '','' @ join_comma (y # ys)"

text \<open>
  \<^verbatim>\<open>`${v}`\<close>: the string a template literal makes of a parsed value, \<open>None\<close> where the
  conversion throws a TypeError. An array joins its elements with commas (\<^verbatim>\<open>null\<close> as the
  empty string); an object prints as \<^verbatim>\<open>[object Object]\<close> unless an own property
  \<^verbatim>\<open>toString\<close> hides the inherited method, and then the conversion throws, since no
  parsed value is callable.
\<close>

fun to_str :: "(rat \<Rightarrow> string) \<Rightarrow> json \<Rightarrow> string option" where
  "to_str fmt JNull = Some ''null''"
| "to_str fmt (JBool b) = Some (if b then ''true'' else ''false'')"
| "to_str fmt (JNum r) = Some (num_str fmt r)"
| "to_str fmt (JStr s) = Some s"
| "to_str fmt (JArr xs) =
     map_option join_comma
       (those (map (\<lambda>x. if x = JNull then Some '''' else to_str fmt x) xs))"
| "to_str fmt (JObj kv) =
     (if map_of kv ''toString'' = None then Some ''[object Object]'' else None)"

text \<open>
  \<^verbatim>\<open>{...message, acknowledged: true}\<close>: the property is overwritten where it stands, or
  added last.
\<close>

fun set_prop :: "string \<Rightarrow> json \<Rightarrow> (string \<times> json) list \<Rightarrow> (string \<times> json) list" where
  "set_prop k v [] = [(k, v)]"
| "set_prop k v (p # ps) = (if fst p = k then (k, v) # ps else p # set_prop k v ps)"

definition with_ack :: "(string \<times> json) list \<Rightarrow> (string \<times> json) list" where
  "with_ack message = set_prop ''acknowledged'' (JBool True) message"

section \<open>Connections and the registry\<close>

text \<open>
  A \<open>handle\<close> names one \<^verbatim>\<open>ws\<close> object. The state holds, for every \<^verbatim>\<open>ws\<close> the
  \<^verbatim>\<open>'connection'\<close> handler has run for, the two fields of the object that the server reads
  (\<^verbatim>\<open>readyState\<close>, \<^verbatim>\<open>isAlive\<close>) and the \<^verbatim>\<open>clientInfo\<close> object its handlers close over,
  which is also the value stored under \<^verbatim>\<open>ws\<close> in the Map \<^verbatim>\<open>clients\<close>. The Map itself is
  the list of its keys in insertion order.
\<close>

type_synonym handle = nat

datatype ready_state = CONNECTING | OPEN | CLOSING | CLOSED

record client_info =
  client_id :: nat
  ip :: string
  connectedAt :: string
  username :: string
  info_isAlive :: bool

record connection =
  readyState :: ready_state
  isAlive :: bool
  info :: client_info

type_synonym message = "(string \<times> json) list"

record server =
  clients :: "handle list"
  clientCounter :: nat
  conn :: "handle \<rightharpoonup> connection"
  outbox :: "(handle \<times> message) list"
  probes :: "handle list"
  pending_close :: "handle list"

text \<open>
  \<open>outbox\<close> is the log of the calls \<^verbatim>\<open>ws.send(JSON.stringify(m))\<close>, oldest first, each with
  the object \<open>m\<close> before serialisation. The handlers call \<^verbatim>\<open>send\<close> without looking at the
  socket's state (only \<^verbatim>\<open>broadcastMessage\<close> does), so a call on a socket that is not open
  is logged too; the call is taken not to throw. \<open>probes\<close> is the log of the calls \<^verbatim>\<open>ws.ping()\<close>;
  \<open>pending_close\<close> lists the sockets that have left the state OPEN (destroyed by
  \<^verbatim>\<open>ws.terminate()\<close>, or closing after the peer's close frame) and whose \<^verbatim>\<open>'close'\<close> event
  the library has still to emit.
\<close>

definition init :: server where
  "init = \<lparr>clients = [], clientCounter = 0, conn = Map.empty, outbox = [], probes = [],
     pending_close = []\<rparr>"

text \<open>
  A clock gives the readings \<^verbatim>\<open>new Date()\<close> returns while one handler runs, already in
  ISO form: \<open>clk 0\<close> is the first reading that reaches a message or a record, \<open>clk 1\<close>
  the second, \<open>clk 2\<close> the third.
\<close>

type_synonym clock = "nat \<Rightarrow> string"

definition send :: "handle \<Rightarrow> message \<Rightarrow> server \<Rightarrow> server" where
  "send ws m s = s\<lparr>outbox := outbox s @ [(ws, m)]\<rparr>"

definition is_open :: "server \<Rightarrow> handle \<Rightarrow> bool" where
  "is_open s ws = (case conn s ws of Some c \<Rightarrow> readyState c = OPEN | None \<Rightarrow> False)"

text \<open>\<^verbatim>\<open>clients.set(ws, clientInfo)\<close> and \<^verbatim>\<open>clients.delete(ws)\<close> on the keys.\<close>

definition map_set :: "handle \<Rightarrow> handle list \<Rightarrow> handle list" where
  "map_set ws ks = (if ws \<in> set ks then ks else ks @ [ws])"

definition map_delete :: "handle \<Rightarrow> handle list \<Rightarrow> handle list" where
  "map_delete ws ks = filter (\<lambda>k. k \<noteq> ws) ks"

subsection \<open>broadcastMessage\<close>

text \<open>
  The body of the \<^verbatim>\<open>forEach\<close> in \<^verbatim>\<open>broadcastMessage(message, senderWs = null)\<close> for one
  key, and the loop over the keys.
\<close>

definition broadcast_one :: "message \<Rightarrow> handle option \<Rightarrow> handle \<Rightarrow> server \<Rightarrow> server" where
  "broadcast_one m senderWs ws s =
     (if is_open s ws then
        (if senderWs = None \<or> Some ws \<noteq> senderWs then send ws m s
         else send ws (with_ack m) s)
      else s)"

fun broadcast_loop :: "message \<Rightarrow> handle option \<Rightarrow> handle list \<Rightarrow> server \<Rightarrow> server" where
  "broadcast_loop m senderWs [] s = s"
| "broadcast_loop m senderWs (ws # ks) s =
     broadcast_loop m senderWs ks (broadcast_one m senderWs ws s)"

definition broadcastMessage :: "message \<Rightarrow> handle option \<Rightarrow> server \<Rightarrow> server" where
  "broadcastMessage m senderWs s = broadcast_loop m senderWs (clients s) s"

subsection \<open>The outbound envelopes\<close>

definition id_num :: "nat \<Rightarrow> json" where
  "id_num n = JNum (of_nat n)"

definition welcome_msg :: "nat \<Rightarrow> string \<Rightarrow> message" where
  "welcome_msg clientId ts =
     [(''type'', JStr ''welcome''),
      (''message'', JStr (''Welcome to the WebSocket Server! Your ID: '' @ show_nat clientId)),
      (''clientId'', id_num clientId),
      (''timestamp'', JStr ts)]"

definition user_joined_msg :: "string \<Rightarrow> nat \<Rightarrow> string \<Rightarrow> message" where
  "user_joined_msg name clientId ts =
     [(''type'', JStr ''user_joined''),
      (''message'', JStr (name @ '' joined the chat'')),
      (''clientId'', id_num clientId),
      (''timestamp'', JStr ts)]"

definition username_changed_msg :: "string \<Rightarrow> string \<Rightarrow> string \<Rightarrow> message" where
  "username_changed_msg oldUsername newUsername ts =
     [(''type'', JStr ''username_changed''),
      (''message'', JStr (''Username changed from '' @ [CHR 0x22] @ oldUsername @ [CHR 0x22]
          @ '' to '' @ [CHR 0x22] @ newUsername @ [CHR 0x22])),
      (''username'', JStr newUsername),
      (''timestamp'', JStr ts)]"

definition user_renamed_msg :: "string \<Rightarrow> string \<Rightarrow> nat \<Rightarrow> string \<Rightarrow> message" where
  "user_renamed_msg oldUsername newUsername clientId ts =
     [(''type'', JStr ''user_renamed''),
      (''message'', JStr (oldUsername @ '' changed username to '' @ newUsername)),
      (''oldUsername'', JStr oldUsername),
      (''newUsername'', JStr newUsername),
      (''clientId'', id_num clientId),
      (''timestamp'', JStr ts)]"

definition chat_msg :: "string \<Rightarrow> nat \<Rightarrow> json \<Rightarrow> string \<Rightarrow> message" where
  "chat_msg name clientId text ts =
     [(''type'', JStr ''chat''),
      (''username'', JStr name),
      (''clientId'', id_num clientId),
      (''text'', text),
      (''timestamp'', JStr ts)]"

definition private_message_msg :: "string \<Rightarrow> nat \<Rightarrow> json \<Rightarrow> string \<Rightarrow> message" where
  "private_message_msg name clientId text ts =
     [(''type'', JStr ''private_message''),
      (''from'', JStr name),
      (''fromClientId'', id_num clientId),
      (''text'', text),
      (''timestamp'', JStr ts)]"

definition private_message_sent_msg :: "string \<Rightarrow> json \<Rightarrow> string \<Rightarrow> message" where
  "private_message_sent_msg name text ts =
     [(''type'', JStr ''private_message_sent''),
      (''to'', JStr name),
      (''text'', text),
      (''timestamp'', JStr ts)]"

definition error_msg :: "string \<Rightarrow> string \<Rightarrow> message" where
  "error_msg txt ts =
     [(''type'', JStr ''error''), (''message'', JStr txt), (''timestamp'', JStr ts)]"

definition user_entry :: "client_info \<Rightarrow> json" where
  "user_entry client =
     JObj [(''id'', id_num (client_id client)),
           (''username'', JStr (username client)),
           (''connectedAt'', JStr (connectedAt client)),
           (''ip'', JStr (ip client))]"

definition user_list_msg :: "json list \<Rightarrow> nat \<Rightarrow> string \<Rightarrow> message" where
  "user_list_msg userList n ts =
     [(''type'', JStr ''user_list''),
      (''users'', JArr userList),
      (''totalUsers'', id_num n),
      (''timestamp'', JStr ts)]"

definition pong_msg :: "string \<Rightarrow> message" where
  "pong_msg ts = [(''type'', JStr ''pong''), (''timestamp'', JStr ts)]"

definition echo_msg :: "json \<Rightarrow> string \<Rightarrow> message" where
  "echo_msg m ts = [(''type'', JStr ''echo''), (''message'', m), (''timestamp'', JStr ts)]"

definition user_left_msg :: "string \<Rightarrow> nat \<Rightarrow> string \<Rightarrow> message" where
  "user_left_msg name clientId ts =
     [(''type'', JStr ''user_left''),
      (''message'', JStr (name @ '' left the chat'')),
      (''clientId'', id_num clientId),
      (''timestamp'', JStr ts)]"

definition invalid_format :: string where
  "invalid_format = ''Invalid message format. Expected JSON.''"

subsection \<open>wss.on('connection')\<close>

text \<open>
  The library hands over a new \<^verbatim>\<open>ws\<close> in state OPEN; the handler numbers it, stores its
  record, greets it and announces it with itself as \<^verbatim>\<open>senderWs\<close>. Its last statement
  \<^verbatim>\<open>ws.isAlive = true\<close> is the value the object enters the state with, as nothing reads the
  flag before.
\<close>

definition on_connection :: "handle \<Rightarrow> string \<Rightarrow> clock \<Rightarrow> server \<Rightarrow> server" where
  "on_connection ws clientIp clk s =
     (let clientId = clientCounter s + 1;
          clientInfo = \<lparr>client_id = clientId, ip = clientIp, connectedAt = clk 0,
             username = ''User_'' @ show_nat clientId, info_isAlive = True\<rparr>;
          s1 = s\<lparr>clientCounter := clientId,
                 conn := (conn s)(ws \<mapsto> \<lparr>readyState = OPEN, isAlive = True, info = clientInfo\<rparr>),
                 clients := map_set ws (clients s)\<rparr>;
          s2 = send ws (welcome_msg clientId (clk 1)) s1
      in broadcastMessage (user_joined_msg (username clientInfo) clientId (clk 2)) (Some ws) s2)"

subsection \<open>ws.on('message')\<close>

text \<open>
  What leaves the \<^verbatim>\<open>try\<close> block by a throw, with the state reached before it.
\<close>

datatype exn = SyntaxError | TypeError

type_synonym outcome = "(exn \<times> server) + server"

definition rename :: "handle \<Rightarrow> string \<Rightarrow> server \<Rightarrow> server" where
  "rename ws name s =
     (case conn s ws of
        Some c \<Rightarrow> s\<lparr>conn := (conn s)(ws \<mapsto> c\<lparr>info := (info c)\<lparr>username := name\<rparr>\<rparr>)\<rparr>
      | None \<Rightarrow> s)"

text \<open>
  \<^verbatim>\<open>case 'set_username'\<close>. A truthy \<^verbatim>\<open>username\<close> that is not a string has no \<^verbatim>\<open>trim\<close>:
  the call throws before anything is changed.
\<close>

definition set_username_case :: "handle \<Rightarrow> client_info \<Rightarrow> json \<Rightarrow> clock \<Rightarrow> server \<Rightarrow> outcome" where
  "set_username_case ws clientInfo message clk s =
     (case field message ''username'' of
        None \<Rightarrow> Inr s
      | Some u \<Rightarrow>
          if truthy u then
            (case u of
               JStr str \<Rightarrow>
                 if length (trim str) > 0 then
                   (let oldUsername = username clientInfo;
                        newUsername = trim str;
                        s1 = rename ws newUsername s;
                        s2 = send ws (username_changed_msg oldUsername newUsername (clk 0)) s1
                    in Inr (broadcastMessage
                         (user_renamed_msg oldUsername newUsername (client_id clientInfo) (clk 1))
                         None s2))
                 else Inr s
             | _ \<Rightarrow> Inl (TypeError, s))
          else Inr s)"

text \<open>\<^verbatim>\<open>case 'chat'\<close>: \<^verbatim>\<open>broadcastMessage\<close> is called with the message alone.\<close>

definition chat_case :: "handle \<Rightarrow> client_info \<Rightarrow> json \<Rightarrow> clock \<Rightarrow> server \<Rightarrow> outcome" where
  "chat_case ws clientInfo message clk s =
     (case field message ''text'' of
        None \<Rightarrow> Inr s
      | Some t \<Rightarrow>
          if truthy t then
            (case t of
               JStr str \<Rightarrow>
                 if length (trim str) > 0 then
                   Inr (broadcastMessage
                     (chat_msg (username clientInfo) (client_id clientInfo) t (clk 0)) None s)
                 else Inr s
             | _ \<Rightarrow> Inl (TypeError, s))
          else Inr s)"

text \<open>\<^verbatim>\<open>client.id === message.targetClientId\<close> and the \<^verbatim>\<open>for ... of clients\<close> search.\<close>

fun strict_eq_id :: "nat \<Rightarrow> json \<Rightarrow> bool" where
  "strict_eq_id n (JNum r) = (r = of_nat n)"
| "strict_eq_id n _ = False"

fun find_target ::
  "json \<Rightarrow> (handle \<rightharpoonup> connection) \<Rightarrow> handle list \<Rightarrow> (handle \<times> client_info) option" where
  "find_target k cs [] = None"
| "find_target k cs (ws_key # ks) =
     (case cs ws_key of
        Some c \<Rightarrow>
          if strict_eq_id (client_id (info c)) k then Some (ws_key, info c)
          else find_target k cs ks
      | None \<Rightarrow> find_target k cs ks)"

text \<open>
  \<^verbatim>\<open>case 'private_message'\<close>. \<^verbatim>\<open>clients.get(targetWs)\<close> is the \<^verbatim>\<open>client\<close> the search stopped
  at. The template literal of the error reply is evaluated before the reply is sent and
  can throw.
\<close>

definition private_message_case ::
  "(rat \<Rightarrow> string) \<Rightarrow> handle \<Rightarrow> client_info \<Rightarrow> json \<Rightarrow> clock \<Rightarrow> server \<Rightarrow> outcome" where
  "private_message_case fmt ws clientInfo message clk s =
     (case field message ''targetClientId'' of
        None \<Rightarrow> Inr s
      | Some k \<Rightarrow>
          (case field message ''text'' of
             None \<Rightarrow> Inr s
           | Some t \<Rightarrow>
               if truthy k \<and> truthy t then
                 (case find_target k (conn s) (clients s) of
                    Some (targetWs, client) \<Rightarrow>
                      (let s1 = send targetWs
                             (private_message_msg (username clientInfo) (client_id clientInfo) t (clk 0)) s
                       in Inr (send ws (private_message_sent_msg (username client) t (clk 1)) s1))
                  | None \<Rightarrow>
                      (case to_str fmt k of
                         Some str \<Rightarrow>
                           Inr (send ws
                             (error_msg (''Target client '' @ str @ '' not found'') (clk 0)) s)
                       | None \<Rightarrow> Inl (TypeError, s)))
               else Inr s))"

text \<open>\<^verbatim>\<open>Array.from(clients.values())\<close> and \<^verbatim>\<open>case 'get_users'\<close>.\<close>

definition client_values :: "server \<Rightarrow> client_info list" where
  "client_values s = List.map_filter (\<lambda>k. map_option info (conn s k)) (clients s)"

definition get_users_case :: "handle \<Rightarrow> clock \<Rightarrow> server \<Rightarrow> outcome" where
  "get_users_case ws clk s =
     (let userList = map user_entry (client_values s)
      in Inr (send ws (user_list_msg userList (length (clients s)) (clk 0)) s))"

text \<open>
  The \<^verbatim>\<open>try\<close> block. \<open>data\<close> is what \<^verbatim>\<open>JSON.parse(data)\<close> gives: \<open>None\<close> where it throws
  a SyntaxError. Reading \<^verbatim>\<open>message.type\<close> of \<^verbatim>\<open>null\<close> throws a TypeError; the \<^verbatim>\<open>switch\<close>
  compares with \<^verbatim>\<open>===\<close>.
\<close>

definition try_body ::
  "(rat \<Rightarrow> string) \<Rightarrow> handle \<Rightarrow> client_info \<Rightarrow> json option \<Rightarrow> clock \<Rightarrow> server \<Rightarrow> outcome" where
  "try_body fmt ws clientInfo data clk s =
     (case data of
        None \<Rightarrow> Inl (SyntaxError, s)
      | Some message \<Rightarrow>
          if message = JNull then Inl (TypeError, s)
          else
            (let ty = field message ''type'' in
             if ty = Some (JStr ''set_username'') then set_username_case ws clientInfo message clk s
             else if ty = Some (JStr ''chat'') then chat_case ws clientInfo message clk s
             else if ty = Some (JStr ''private_message'') then
               private_message_case fmt ws clientInfo message clk s
             else if ty = Some (JStr ''get_users'') then get_users_case ws clk s
             else if ty = Some (JStr ''ping'') then Inr (send ws (pong_msg (clk 0)) s)
             else Inr (send ws (echo_msg message (clk 0)) s)))"

text \<open>
  The handler with its \<^verbatim>\<open>catch\<close>. A \<^verbatim>\<open>ws\<close> the connection handler never ran for has no
  listener. No clock reading is taken before a throw, so the one of the \<^verbatim>\<open>catch\<close> clause
  is the first.
\<close>

definition on_message ::
  "(rat \<Rightarrow> string) \<Rightarrow> handle \<Rightarrow> json option \<Rightarrow> clock \<Rightarrow> server \<Rightarrow> server" where
  "on_message fmt ws data clk s =
     (case conn s ws of
        None \<Rightarrow> s
      | Some c \<Rightarrow>
          (case try_body fmt ws (info c) data clk s of
             Inr s' \<Rightarrow> s'
           | Inl (e, s') \<Rightarrow>
               send ws (error_msg invalid_format (clk 0)) s'))"

subsection \<open>ws.on('close') and ws.on('pong')\<close>

definition on_close :: "handle \<Rightarrow> clock \<Rightarrow> server \<Rightarrow> server" where
  "on_close ws clk s =
     (case conn s ws of
        None \<Rightarrow> s
      | Some c \<Rightarrow>
          (let s1 = s\<lparr>clients := map_delete ws (clients s)\<rparr>
           in broadcastMessage
                (user_left_msg (username (info c)) (client_id (info c)) (clk 0)) None s1))"

definition on_pong :: "handle \<Rightarrow> server \<Rightarrow> server" where
  "on_pong ws s =
     (case conn s ws of
        None \<Rightarrow> s
      | Some c \<Rightarrow> s\<lparr>conn := (conn s)(ws \<mapsto> c\<lparr>isAlive := True\<rparr>)\<rparr>)"

subsection \<open>The heartbeat interval\<close>

text \<open>
  \<^verbatim>\<open>ws.terminate()\<close> destroys the socket of an open connection: the object leaves the
  state OPEN at once, and the library emits its \<^verbatim>\<open>'close'\<close> event once, in a later turn of
  the event loop. On a socket that is no longer open it changes nothing.
\<close>

definition terminate :: "handle \<Rightarrow> server \<Rightarrow> server" where
  "terminate ws s =
     (case conn s ws of
        Some c \<Rightarrow>
          if readyState c = OPEN then
            s\<lparr>conn := (conn s)(ws \<mapsto> c\<lparr>readyState := CLOSING\<rparr>),
              pending_close := pending_close s @ [ws]\<rparr>
          else s
      | None \<Rightarrow> s)"

definition ping :: "handle \<Rightarrow> server \<Rightarrow> server" where
  "ping ws s = s\<lparr>probes := probes s @ [ws]\<rparr>"

definition heartbeat_one :: "handle \<Rightarrow> server \<Rightarrow> server" where
  "heartbeat_one ws s =
     (case conn s ws of
        None \<Rightarrow> s
      | Some c \<Rightarrow>
          if isAlive c = False then terminate ws s
          else ping ws (s\<lparr>conn := (conn s)(ws \<mapsto> c\<lparr>isAlive := False\<rparr>)\<rparr>))"

fun heartbeat_loop :: "handle list \<Rightarrow> server \<Rightarrow> server" where
  "heartbeat_loop [] s = s"
| "heartbeat_loop (ws # ks) s = heartbeat_loop ks (heartbeat_one ws s)"

definition heartbeat :: "server \<Rightarrow> server" where
  "heartbeat s = heartbeat_loop (clients s) s"

subsection \<open>Events\<close>

text \<open>
  What the library and the timer do to the state. \<open>CloseFrame\<close> is the arrival of the
  peer's close frame: the library sets the \<^verbatim>\<open>readyState\<close> of an open socket to CLOSING at
  once and runs no handler of the server; it emits \<^verbatim>\<open>'close'\<close> later, when the socket has
  closed. Before it emits \<^verbatim>\<open>'close'\<close> on a \<^verbatim>\<open>ws\<close> (after a close frame, after
  \<^verbatim>\<open>terminate\<close>, or when the connection is lost) the library sets its \<^verbatim>\<open>readyState\<close> to
  CLOSED.
\<close>

datatype event =
    Connect handle string clock
  | Message handle "json option" clock
  | CloseFrame handle
  | Close handle clock
  | Pong handle
  | Tick

definition close_frame :: "handle \<Rightarrow> server \<Rightarrow> server" where
  "close_frame ws s =
     (case conn s ws of
        Some c \<Rightarrow>
          if readyState c = OPEN then
            s\<lparr>conn := (conn s)(ws \<mapsto> c\<lparr>readyState := CLOSING\<rparr>),
              pending_close := pending_close s @ [ws]\<rparr>
          else s
      | None \<Rightarrow> s)"

definition emit_close :: "handle \<Rightarrow> server \<Rightarrow> server" where
  "emit_close ws s =
     (case conn s ws of
        None \<Rightarrow> s
      | Some c \<Rightarrow>
          s\<lparr>conn := (conn s)(ws \<mapsto> c\<lparr>readyState := CLOSED\<rparr>),
            pending_close := filter (\<lambda>k. k \<noteq> ws) (pending_close s)\<rparr>)"

fun step :: "(rat \<Rightarrow> string) \<Rightarrow> event \<Rightarrow> server \<Rightarrow> server" where
  "step fmt (Connect ws clientIp clk) s = on_connection ws clientIp clk s"
| "step fmt (Message ws data clk) s = on_message fmt ws data clk s"
| "step fmt (CloseFrame ws) s = close_frame ws s"
| "step fmt (Close ws clk) s = on_close ws clk (emit_close ws s)"
| "step fmt (Pong ws) s = on_pong ws s"
| "step fmt Tick s = heartbeat s"

fun exec :: "(rat \<Rightarrow> string) \<Rightarrow> event list \<Rightarrow> server \<Rightarrow> server" where
  "exec fmt [] s = s"
| "exec fmt (e # es) s = exec fmt es (step fmt e s)"

text \<open>
  The events the library can deliver in a state: \<^verbatim>\<open>'connection'\<close> with a \<^verbatim>\<open>ws\<close> object
  that is new, and \<^verbatim>\<open>'message'\<close>, \<^verbatim>\<open>'pong'\<close>, a close frame and (once) \<^verbatim>\<open>'close'\<close> on a
  \<^verbatim>\<open>ws\<close> it has handed over and not yet closed.
\<close>

definition live :: "server \<Rightarrow> handle \<Rightarrow> bool" where
  "live s ws = (case conn s ws of Some c \<Rightarrow> readyState c \<noteq> CLOSED | None \<Rightarrow> False)"

fun deliverable :: "server \<Rightarrow> event \<Rightarrow> bool" where
  "deliverable s (Connect ws clientIp clk) = (conn s ws = None)"
| "deliverable s (Message ws data clk) = live s ws"
| "deliverable s (CloseFrame ws) = live s ws"
| "deliverable s (Close ws clk) = live s ws"
| "deliverable s (Pong ws) = live s ws"
| "deliverable s Tick = True"

fun trace :: "(rat \<Rightarrow> string) \<Rightarrow> server \<Rightarrow> event list \<Rightarrow> bool" where
  "trace fmt s [] = True"
| "trace fmt s (e # es) = (deliverable s e \<and> trace fmt (step fmt e s) es)"

section \<open>Notions used in the statements\<close>

text \<open>
  What one call of \<^verbatim>\<open>broadcastMessage\<close> sends, in order: one message to every key whose
  socket is open, the acknowledged variant to \<^verbatim>\<open>senderWs\<close>.
\<close>

definition deliveries ::
  "message \<Rightarrow> handle option \<Rightarrow> server \<Rightarrow> handle list \<Rightarrow> (handle \<times> message) list" where
  "deliveries m senderWs s ks =
     map (\<lambda>ws. (ws, if senderWs = Some ws then with_ack m else m)) (filter (is_open s) ks)"

text \<open>The messages an event added to the log, and those of them addressed to one socket.\<close>

definition new_out :: "server \<Rightarrow> server \<Rightarrow> (handle \<times> message) list" where
  "new_out s s' = drop (length (outbox s)) (outbox s')"

definition inbox_of :: "handle \<Rightarrow> (handle \<times> message) list \<Rightarrow> message list" where
  "inbox_of ws xs = map snd (filter (\<lambda>p. fst p = ws) xs)"

text \<open>The id of the record a socket's handlers close over.\<close>

definition id_of :: "server \<Rightarrow> handle \<Rightarrow> nat option" where
  "id_of s ws = map_option (\<lambda>c. client_id (info c)) (conn s ws)"

text \<open>
  The registry invariant: the keys are distinct, every key has its record, every id
  handed out lies between 1 and the counter, and no two sockets share an id.
\<close>

definition inv :: "server \<Rightarrow> bool" where
  "inv s =
     (distinct (clients s) \<and>
      (\<forall>h \<in> set (clients s). id_of s h \<noteq> None) \<and>
      (\<forall>h n. id_of s h = Some n \<longrightarrow> 1 \<le> n \<and> n \<le> clientCounter s) \<and>
      (\<forall>h h' n. id_of s h = Some n \<and> id_of s h' = Some n \<longrightarrow> h = h'))"

text \<open>
  The registered sockets are exactly those handed over whose \<^verbatim>\<open>'close'\<close> event has not
  been delivered: the open ones and the closing ones.
\<close>

definition reg_live :: "server \<Rightarrow> bool" where
  "reg_live s = (\<forall>h. h \<in> set (clients s) \<longleftrightarrow> live s h)"

text \<open>The ids given to the \<open>Connect\<close> events of a run, in order.\<close>

fun is_connect :: "event \<Rightarrow> bool" where
  "is_connect (Connect ws clientIp clk) = True"
| "is_connect _ = False"

fun assigned :: "(rat \<Rightarrow> string) \<Rightarrow> event list \<Rightarrow> server \<Rightarrow> nat option list" where
  "assigned fmt [] s = []"
| "assigned fmt (e # es) s =
     (case e of
        Connect ws clientIp clk \<Rightarrow> [id_of (step fmt e s) ws]
      | _ \<Rightarrow> []) @ assigned fmt es (step fmt e s)"

text \<open>
  What one heartbeat does to a single connection, and the events between two heartbeats
  that leave the socket \<open>ws\<close> alone: no tick, and no pong, close frame, close or
  connection of \<open>ws\<close>.
\<close>

definition beat :: "connection \<Rightarrow> connection" where
  "beat c =
     (if isAlive c = False then (if readyState c = OPEN then c\<lparr>readyState := CLOSING\<rparr> else c)
      else c\<lparr>isAlive := False\<rparr>)"

fun quiet :: "handle \<Rightarrow> event \<Rightarrow> bool" where
  "quiet ws (Connect w clientIp clk) = (w \<noteq> ws)"
| "quiet ws (Message w data clk) = True"
| "quiet ws (CloseFrame w) = (w \<noteq> ws)"
| "quiet ws (Close w clk) = (w \<noteq> ws)"
| "quiet ws (Pong w) = (w \<noteq> ws)"
| "quiet ws Tick = False"

subsection \<open>A concrete run\<close>

definition clk0 :: clock where
  "clk0 = (\<lambda>n. ''2025-12-29T18:14:30.000Z'')"

definition fmt0 :: "rat \<Rightarrow> string" where
  "fmt0 = (\<lambda>r. ''1.5'')"

definition three_connects :: "event list" where
  "three_connects = [Connect 1 ''::1'' clk0, Connect 2 ''::1'' clk0, Connect 3 ''::1'' clk0]"

definition three_clients :: server where
  "three_clients = exec fmt0 three_connects init"

definition new_client :: "nat \<Rightarrow> connection" where
  "new_client n =
     \<lparr>readyState = OPEN, isAlive = True,
      info = \<lparr>client_id = n, ip = ''::1'', connectedAt = ''2025-12-29T18:14:30.000Z'',
        username = ''User_'' @ show_nat n, info_isAlive = True\<rparr>\<rparr>"

definition obj :: "(string \<times> json) list \<Rightarrow> json option" where
  "obj kv = Some (JObj kv)"

text \<open>
  When the \<^verbatim>\<open>try\<close> block throws: the payload does not parse; it is \<^verbatim>\<open>null\<close>; a
  \<^verbatim>\<open>set_username\<close> or \<^verbatim>\<open>chat\<close> carries a truthy \<^verbatim>\<open>username\<close> or \<^verbatim>\<open>text\<close> that is not a
  string; or a \<^verbatim>\<open>private_message\<close> names a target that is not found and cannot be printed.
\<close>

fun not_a_string :: "json \<Rightarrow> bool" where
  "not_a_string (JStr str) = False"
| "not_a_string v = True"

definition untrimmable :: "json \<Rightarrow> string \<Rightarrow> bool" where
  "untrimmable message k =
     (case field message k of Some v \<Rightarrow> truthy v \<and> not_a_string v | None \<Rightarrow> False)"

definition unprintable_target :: "(rat \<Rightarrow> string) \<Rightarrow> server \<Rightarrow> json \<Rightarrow> bool" where
  "unprintable_target fmt s message =
     (case field message ''targetClientId'' of
        Some k \<Rightarrow>
          (case field message ''text'' of
             Some t \<Rightarrow> truthy k \<and> truthy t \<and> find_target k (conn s) (clients s) = None
               \<and> to_str fmt k = None
           | None \<Rightarrow> False)
      | None \<Rightarrow> False)"

definition throws :: "(rat \<Rightarrow> string) \<Rightarrow> server \<Rightarrow> json option \<Rightarrow> bool" where
  "throws fmt s data =
     (case data of
        None \<Rightarrow> True
      | Some message \<Rightarrow>
          message = JNull
          \<or> (field message ''type'' = Some (JStr ''set_username'') \<and> untrimmable message ''username'')
          \<or> (field message ''type'' = Some (JStr ''chat'') \<and> untrimmable message ''text'')
          \<or> (field message ''type'' = Some (JStr ''private_message'')
              \<and> unprintable_target fmt s message))"

text \<open>
  The two states of the liveness monitor for a socket: \<open>alive\<close> (the flag is set), and
  \<open>stale\<close> (the flag is cleared and the socket is still open, so the next heartbeat
  terminates it).
\<close>

definition alive :: "server \<Rightarrow> handle \<Rightarrow> bool" where
  "alive s ws = (case conn s ws of Some c \<Rightarrow> isAlive c | None \<Rightarrow> False)"

definition stale :: "server \<Rightarrow> handle \<Rightarrow> bool" where
  "stale s ws = (case conn s ws of Some c \<Rightarrow> \<not> isAlive c \<and> readyState c = OPEN | None \<Rightarrow> False)"

text \<open>What of a connection no message handler changes: the socket's fields and the id.\<close>

definition fixed_part :: "server \<Rightarrow> handle \<Rightarrow> (ready_state \<times> bool \<times> nat) option" where
  "fixed_part s ws = map_option (\<lambda>c. (readyState c, isAlive c, client_id (info c))) (conn s ws)"

definition frame :: "server \<Rightarrow> server \<Rightarrow> bool" where
  "frame s s' =
     (clients s' = clients s \<and> clientCounter s' = clientCounter s \<and> probes s' = probes s
      \<and> pending_close s' = pending_close s \<and> fixed_part s' = fixed_part s)"

definition two_clients :: server where
  "two_clients = exec fmt0 [Connect 1 ''::1'' clk0, Connect 2 ''::1'' clk0] init"

definition connect_close_run :: "event list" where
  "connect_close_run =
     [Connect 1 ''::1'' clk0, Connect 2 ''::1'' clk0, CloseFrame 1, Close 1 clk0,
      Connect 3 ''::1'' clk0]"

definition closing_run :: "event list" where
  "closing_run =
     [Connect 1 ''::1'' clk0, Connect 2 ''::1'' clk0, CloseFrame 1, Connect 3 ''::1'' clk0]"

text \<open>What an event that is quiet for \<open>ws\<close> leaves as it was.\<close>

definition untouched :: "handle \<Rightarrow> server \<Rightarrow> server \<Rightarrow> bool" where
  "untouched ws s s' =
     (fixed_part s' ws = fixed_part s ws
      \<and> (ws \<in> set (clients s') \<longleftrightarrow> ws \<in> set (clients s))
      \<and> (ws \<in> set (pending_close s') \<longleftrightarrow> ws \<in> set (pending_close s))
      \<and> probes s' = probes s)"

section \<open>Facts about the model\<close>

subsection \<open>The broadcast and the run of three connections\<close>

lemma is_open_outbox [simp]: "is_open (s\<lparr>outbox := x\<rparr>) = is_open s"
  by (rule ext) (simp add: is_open_def)

lemma broadcast_loop_eq:
  "broadcast_loop m sw ks s = s\<lparr>outbox := outbox s @ deliveries m sw s ks\<rparr>"
proof (induction ks arbitrary: s)
  case Nil
  show ?case by (simp add: deliveries_def)
next
  case (Cons k ks)
  show ?case
    by (auto simp: Cons.IH broadcast_one_def send_def deliveries_def)
qed

lemma broadcastMessage_eq:
  "broadcastMessage m sw s = s\<lparr>outbox := outbox s @ deliveries m sw s (clients s)\<rparr>"
  by (simp add: broadcastMessage_def broadcast_loop_eq)

lemma inbox_of_append [simp]: "inbox_of w (xs @ ys) = inbox_of w xs @ inbox_of w ys"
  by (simp add: inbox_of_def)

lemma inbox_of_deliveries:
  "distinct ks \<Longrightarrow> inbox_of w (deliveries m sw s ks) =
     (if w \<in> set ks \<and> is_open s w then [if sw = Some w then with_ack m else m] else [])"
  by (induction ks) (auto simp: inbox_of_def deliveries_def)

lemma new_out_append: "outbox s' = outbox s @ xs \<Longrightarrow> new_out s s' = xs"
  by (simp add: new_out_def)

lemma show_nat_digit: "n < 10 \<Longrightarrow> show_nat n = [char_of (48 + n)]"
  by (simp add: show_nat.simps)

lemma three_clients_eq:
  "three_clients =
     \<lparr>clients = [1, 2, 3], clientCounter = 3,
      conn = [1 \<mapsto> new_client 1, 2 \<mapsto> new_client 2, 3 \<mapsto> new_client 3],
      outbox = outbox three_clients, probes = [], pending_close = []\<rparr>"
  by (simp add: three_clients_def three_connects_def init_def on_connection_def send_def
      broadcastMessage_eq map_set_def new_client_def clk0_def Let_def
      numeral_2_eq_2 [symmetric] numeral_3_eq_3 [symmetric])

lemma chat_eq:
  assumes "conn s A = Some c"
    and "field message ''type'' = Some (JStr ''chat'')"
    and "field message ''text'' = Some (JStr t)"
    and "trim t \<noteq> []"
  shows "on_message fmt A (Some message) clk s =
     s\<lparr>outbox := outbox s @
        deliveries (chat_msg (username (info c)) (client_id (info c)) (JStr t) (clk 0)) None s (clients s)\<rparr>"
proof -
  from assms(2) have "message \<noteq> JNull" by auto
  moreover from assms(4) have "t \<noteq> []" by (auto simp: trim_def)
  ultimately show ?thesis
  using assms by (simp add: on_message_def try_body_def chat_case_def broadcastMessage_eq)
qed

lemma show_nat_123:
  "show_nat (Suc 0) = ''1''" "show_nat 2 = ''2''" "show_nat 3 = ''3''"
  by code_simp+

lemma is_open_three: "is_open three_clients w = (w = 1 \<or> w = 2 \<or> w = 3)"
  by (subst three_clients_eq) (simp add: is_open_def new_client_def)

lemma clients_three: "clients three_clients = [1, 2, 3]"
  by (subst three_clients_eq) simp

lemma conn_three: "conn three_clients = [1 \<mapsto> new_client 1, 2 \<mapsto> new_client 2, 3 \<mapsto> new_client 3]"
  by (subst three_clients_eq) simp

subsection \<open>The cases of the message handler\<close>

lemma type_not_null: "field message k = Some v \<Longrightarrow> message \<noteq> JNull"
  by auto

lemma trim_Nil [simp]: "trim [] = []"
  by (simp add: trim_def)

lemma is_open_conn_cong:
  assumes "\<And>h. map_option readyState (conn s' h) = map_option readyState (conn s h)"
  shows "is_open s' = is_open s"
proof (rule ext)
  fix h
  from assms [of h] show "is_open s' h = is_open s h"
    by (cases "conn s' h"; cases "conn s h") (simp_all add: is_open_def)
qed

lemma deliveries_cong: "is_open s' = is_open s \<Longrightarrow> deliveries m sw s' ks = deliveries m sw s ks"
  by (simp add: deliveries_def)

lemma is_open_rename [simp]: "is_open (rename ws name s) = is_open s"
  by (rule is_open_conn_cong) (simp add: rename_def split: option.splits)

lemma set_username_eq:
  assumes "conn s ws = Some c"
    and "field message ''type'' = Some (JStr ''set_username'')"
    and "field message ''username'' = Some (JStr u)"
    and "trim u \<noteq> []"
  shows "on_message fmt ws (Some message) clk s =
     s\<lparr>conn := (conn s)(ws \<mapsto> c\<lparr>info := (info c)\<lparr>username := trim u\<rparr>\<rparr>),
       outbox := outbox s @
         (ws, username_changed_msg (username (info c)) (trim u) (clk 0))
         # deliveries (user_renamed_msg (username (info c)) (trim u) (client_id (info c)) (clk 1))
             None s (clients s)\<rparr>"
proof -
  from assms(2) have nn: "message \<noteq> JNull" by (rule type_not_null)
  from assms(4) have ne: "u \<noteq> []" by auto
  let ?s1 = "rename ws (trim u) s"
  have d: "deliveries m None (send ws x ?s1) ks = deliveries m None s ks" for m x ks
    by (rule deliveries_cong) (simp add: send_def)
  have c1: "clients ?s1 = clients s" and o1: "outbox ?s1 = outbox s"
    using assms(1) by (simp_all add: rename_def)
  have "set_username_case ws (info c) message clk s =
     Inr (broadcastMessage
       (user_renamed_msg (username (info c)) (trim u) (client_id (info c)) (clk 1)) None
       (send ws (username_changed_msg (username (info c)) (trim u) (clk 0)) ?s1))"
    using assms(3,4) ne by (simp add: set_username_case_def Let_def)
  then show ?thesis
    using assms(1,2) nn
    by (simp add: on_message_def try_body_def broadcastMessage_eq d)
      (simp add: send_def rename_def)
qed

lemma set_username_ignored:
  assumes "field message ''type'' = Some (JStr ''set_username'')"
    and "field message ''username'' = None
         \<or> (\<exists>v. field message ''username'' = Some v \<and> \<not> truthy v)
         \<or> (\<exists>u. field message ''username'' = Some (JStr u) \<and> trim u = [])"
  shows "on_message fmt ws (Some message) clk s = s"
proof (cases "conn s ws")
  case None
  then show ?thesis by (simp add: on_message_def)
next
  case (Some c)
  from assms(1) have nn: "message \<noteq> JNull" by (rule type_not_null)
  from assms(2) have "set_username_case ws (info c) message clk s = Inr s"
    by (auto simp: set_username_case_def)
  with Some nn assms(1) show ?thesis
    by (simp add: on_message_def try_body_def)
qed




lemma id_num_inj [simp]: "id_num m = id_num n \<longleftrightarrow> m = n"
  by (simp add: id_num_def)

lemma set_username_case_Inl:
  "set_username_case ws ci message clk s = Inl x \<longleftrightarrow> untrimmable message ''username'' \<and> x = (TypeError, s)"
  by (auto simp: set_username_case_def untrimmable_def Let_def split: option.splits json.splits)

lemma chat_case_Inl:
  "chat_case ws ci message clk s = Inl x \<longleftrightarrow> untrimmable message ''text'' \<and> x = (TypeError, s)"
  by (auto simp: chat_case_def untrimmable_def Let_def split: option.splits json.splits)

lemma private_message_case_Inl:
  "private_message_case fmt ws ci message clk s = Inl x \<longleftrightarrow>
     unprintable_target fmt s message \<and> x = (TypeError, s)"
  by (auto simp: private_message_case_def unprintable_target_def Let_def split: option.splits)

lemma try_body_Inl:
  "(\<exists>x. try_body fmt ws ci data clk s = Inl x) \<longleftrightarrow> throws fmt s data"
  by (auto simp: try_body_def throws_def get_users_case_def Let_def set_username_case_Inl
      chat_case_Inl private_message_case_Inl split: option.splits)

lemma try_body_Inl_state:
  "try_body fmt ws ci data clk s = Inl (e, s') \<Longrightarrow> s' = s"
  by (auto simp: try_body_def get_users_case_def Let_def set_username_case_Inl
      chat_case_Inl private_message_case_Inl split: option.splits if_splits)

lemma throws_reply:
  assumes "conn s ws = Some c" and "throws fmt s data"
  shows "on_message fmt ws data clk s = send ws (error_msg invalid_format (clk 0)) s"
proof -
  from assms(2) obtain x where x: "try_body fmt ws (info c) data clk s = Inl x"
    using try_body_Inl by blast
  obtain e s' where "x = (e, s')" by (cases x)
  with x try_body_Inl_state [of fmt ws "info c" data clk s e s']
  show ?thesis using assms(1) by (simp add: on_message_def)
qed

lemma error_literal:
  "error_msg invalid_format ts =
     [(''type'', JStr ''error''),
      (''message'', JStr ''Invalid message format. Expected JSON.''),
      (''timestamp'', JStr ts)]"
  by (simp add: error_msg_def invalid_format_def)



lemma trim_Alice: "trim '' Alice '' = ''Alice''" "trim ''  '' = []"
  by (simp_all add: trim_def is_space_def)

subsection \<open>What each handler changes, and the registry invariant\<close>

lemma send_fields [simp]:
  "clients (send w m s) = clients s" "clientCounter (send w m s) = clientCounter s"
  "conn (send w m s) = conn s" "outbox (send w m s) = outbox s @ [(w, m)]"
  "probes (send w m s) = probes s" "pending_close (send w m s) = pending_close s"
  by (simp_all add: send_def)

lemma broadcast_fields [simp]:
  "clients (broadcastMessage m sw s) = clients s"
  "clientCounter (broadcastMessage m sw s) = clientCounter s"
  "conn (broadcastMessage m sw s) = conn s"
  "probes (broadcastMessage m sw s) = probes s"
  "pending_close (broadcastMessage m sw s) = pending_close s"
  by (simp_all add: broadcastMessage_eq)

lemma fixed_part_rename [simp]: "fixed_part (rename ws name s) = fixed_part s"
  by (rule ext) (simp add: fixed_part_def rename_def split: option.splits)

lemma rename_fields [simp]:
  "clients (rename w n s) = clients s" "clientCounter (rename w n s) = clientCounter s"
  "outbox (rename w n s) = outbox s"
  "probes (rename w n s) = probes s" "pending_close (rename w n s) = pending_close s"
  by (simp_all add: rename_def split: option.splits)

lemma fixed_part_cong: "conn s' = conn s \<Longrightarrow> fixed_part s' = fixed_part s"
  by (rule ext) (simp add: fixed_part_def)

lemma frame_refl [simp]: "frame s s"
  by (simp add: frame_def)

lemma frame_send [simp]: "frame s (send w m s') = frame s s'"
  by (simp add: frame_def fixed_part_cong [of "send w m s'" s'])

lemma frame_broadcast [simp]: "frame s (broadcastMessage m sw s') = frame s s'"
  by (simp add: frame_def fixed_part_cong [of "broadcastMessage m sw s'" s'])

lemma frame_rename [simp]: "frame s (rename w n s') = frame s s'"
  by (simp add: frame_def)

lemma set_username_case_frame:
  "set_username_case ws ci message clk s = Inr s' \<Longrightarrow> frame s s'"
  unfolding set_username_case_def Let_def
  by (simp split: option.splits if_splits json.splits) auto

lemma chat_case_frame:
  "chat_case ws ci message clk s = Inr s' \<Longrightarrow> frame s s'"
  unfolding chat_case_def Let_def
  by (simp split: option.splits if_splits json.splits) auto

lemma private_message_case_frame:
  "private_message_case fmt ws ci message clk s = Inr s' \<Longrightarrow> frame s s'"
  unfolding private_message_case_def Let_def
  by (simp split: option.splits if_splits prod.splits) auto

lemma try_body_frame:
  assumes "try_body fmt ws ci data clk s = Inr s'"
  shows "frame s s'"
proof (cases data)
  case None
  with assms show ?thesis by (simp add: try_body_def)
next
  case (Some message)
  with assms show ?thesis
    unfolding try_body_def Let_def get_users_case_def
    by (simp split: if_splits)
      (auto dest: set_username_case_frame chat_case_frame private_message_case_frame)
qed

lemma on_message_frame: "frame s (on_message fmt ws data clk s)"
proof (cases "conn s ws")
  case None
  then show ?thesis by (simp add: on_message_def)
next
  case (Some c)
  show ?thesis
  proof (cases "try_body fmt ws (info c) data clk s")
    case (Inl x)
    obtain e s' where x: "x = (e, s')" by (cases x)
    with Inl have "s' = s" by (simp add: try_body_Inl_state)
    with Inl x Some show ?thesis by (simp add: on_message_def)
  next
    case (Inr s')
    with Some try_body_frame [OF Inr] show ?thesis by (simp add: on_message_def)
  qed
qed

lemma id_of_fixed: "id_of s h = map_option (\<lambda>p. snd (snd p)) (fixed_part s h)"
  by (simp add: id_of_def fixed_part_def option.map_comp comp_def)

lemma is_open_fixed: "is_open s h = (map_option fst (fixed_part s h) = Some OPEN)"
  by (simp add: is_open_def fixed_part_def split: option.splits)

lemma live_fixed: "live s h = (\<exists>r. map_option fst (fixed_part s h) = Some r \<and> r \<noteq> CLOSED)"
  by (simp add: live_def fixed_part_def split: option.splits)

lemma alive_fixed: "alive s h = (map_option (\<lambda>p. fst (snd p)) (fixed_part s h) = Some True)"
  by (simp add: alive_def fixed_part_def split: option.splits)

lemma frame_id_of: "frame s s' \<Longrightarrow> id_of s' = id_of s"
  by (rule ext) (simp add: id_of_fixed frame_def)

lemma frame_is_open: "frame s s' \<Longrightarrow> is_open s' = is_open s"
  by (rule ext) (simp add: is_open_fixed frame_def)

lemma frame_live: "frame s s' \<Longrightarrow> live s' = live s"
  by (rule ext) (simp add: live_fixed frame_def)

lemma frame_alive: "frame s s' \<Longrightarrow> alive s' = alive s"
  by (rule ext) (simp add: alive_fixed frame_def)

lemma heartbeat_one_eq:
  "heartbeat_one k s =
     s\<lparr>conn := (conn s)(k := map_option beat (conn s k)),
       probes := probes s @ (if alive s k then [k] else []),
       pending_close := pending_close s @ (if stale s k then [k] else [])\<rparr>"
proof (cases "conn s k")
  case None
  then have "(conn s)(k := None) = conn s" by (simp add: fun_upd_idem)
  with None show ?thesis
    by (simp add: heartbeat_one_def alive_def stale_def)
next
  case (Some c)
  then have "(conn s)(k \<mapsto> c) = conn s" by (simp add: fun_upd_idem)
  with Some show ?thesis
    by (simp add: heartbeat_one_def terminate_def ping_def beat_def alive_def stale_def)
qed

lemma heartbeat_loop_eq:
  "distinct ks \<Longrightarrow> heartbeat_loop ks s =
     s\<lparr>conn := (\<lambda>h. if h \<in> set ks then map_option beat (conn s h) else conn s h),
       probes := probes s @ filter (alive s) ks,
       pending_close := pending_close s @ filter (stale s) ks\<rparr>"
proof (induction ks arbitrary: s)
  case Nil
  show ?case by simp
next
  case (Cons k ks)
  let ?s1 = "heartbeat_one k s"
  from Cons.prems have k: "k \<notin> set ks" and d: "distinct ks" by simp_all
  have c1: "conn ?s1 h = conn s h" if "h \<in> set ks" for h
    using that k by (auto simp: heartbeat_one_eq)
  have a: "filter (alive ?s1) ks = filter (alive s) ks"
    by (rule filter_cong [OF refl]) (simp add: alive_def c1)
  have b: "filter (stale ?s1) ks = filter (stale s) ks"
    by (rule filter_cong [OF refl]) (simp add: stale_def c1)
  have c: "(\<lambda>h. if h \<in> set ks then map_option beat (conn ?s1 h) else conn ?s1 h)
      = (\<lambda>h. if h \<in> set (k # ks) then map_option beat (conn s h) else conn s h)"
    by (rule ext) (use k in \<open>auto simp: heartbeat_one_eq\<close>)
  have "heartbeat_loop (k # ks) s = heartbeat_loop ks ?s1" by simp
  also have "\<dots> = ?s1\<lparr>conn := (\<lambda>h. if h \<in> set ks then map_option beat (conn ?s1 h) else conn ?s1 h),
       probes := probes ?s1 @ filter (alive ?s1) ks,
       pending_close := pending_close ?s1 @ filter (stale ?s1) ks\<rparr>"
    by (rule Cons.IH [OF d])
  also have "\<dots> = s\<lparr>conn := (\<lambda>h. if h \<in> set (k # ks) then map_option beat (conn s h) else conn s h),
       probes := probes s @ filter (alive s) (k # ks),
       pending_close := pending_close s @ filter (stale s) (k # ks)\<rparr>"
    unfolding a b c by (simp add: heartbeat_one_eq)
  finally show ?case .
qed

lemma heartbeat_eq:
  "distinct (clients s) \<Longrightarrow> heartbeat s =
     s\<lparr>conn := (\<lambda>h. if h \<in> set (clients s) then map_option beat (conn s h) else conn s h),
       probes := probes s @ filter (alive s) (clients s),
       pending_close := pending_close s @ filter (stale s) (clients s)\<rparr>"
  by (simp add: heartbeat_def heartbeat_loop_eq)

lemma deliveries_filter_cong:
  "(\<And>h. h \<in> set ks \<Longrightarrow> is_open s' h = is_open s h)
    \<Longrightarrow> deliveries m sw s' ks = deliveries m sw s ks"
  unfolding deliveries_def by (simp cong: filter_cong)

lemma deliveries_not_sender:
  "ws \<notin> set ks \<Longrightarrow> deliveries m (Some ws) s ks = deliveries m None s ks"
  unfolding deliveries_def by auto

lemma close_eq:
  assumes "conn s ws = Some c"
  shows "step fmt (Close ws clk) s =
     s\<lparr>conn := (conn s)(ws \<mapsto> c\<lparr>readyState := CLOSED\<rparr>),
       pending_close := filter (\<lambda>k. k \<noteq> ws) (pending_close s),
       clients := map_delete ws (clients s),
       outbox := outbox s @
         deliveries (user_left_msg (username (info c)) (client_id (info c)) (clk 0)) None s
           (map_delete ws (clients s))\<rparr>"
proof -
  let ?s1 = "emit_close ws s"
  let ?m = "user_left_msg (username (info c)) (client_id (info c)) (clk 0)"
  have e: "?s1 = s\<lparr>conn := (conn s)(ws \<mapsto> c\<lparr>readyState := CLOSED\<rparr>),
       pending_close := filter (\<lambda>k. k \<noteq> ws) (pending_close s)\<rparr>"
    using assms by (simp add: emit_close_def)
  have d: "deliveries ?m None (?s1\<lparr>clients := map_delete ws (clients ?s1)\<rparr>) (map_delete ws (clients s))
      = deliveries ?m None s (map_delete ws (clients s))"
    by (rule deliveries_filter_cong) (simp add: e is_open_def map_delete_def)
  have "step fmt (Close ws clk) s
      = broadcastMessage ?m None (?s1\<lparr>clients := map_delete ws (clients ?s1)\<rparr>)"
    by (simp add: on_close_def e Let_def)
  also have "\<dots> = (?s1\<lparr>clients := map_delete ws (clients ?s1)\<rparr>)
      \<lparr>outbox := outbox ?s1 @ deliveries ?m None (?s1\<lparr>clients := map_delete ws (clients ?s1)\<rparr>)
          (map_delete ws (clients ?s1))\<rparr>"
    by (simp add: broadcastMessage_eq)
  also have "\<dots> = s\<lparr>conn := (conn s)(ws \<mapsto> c\<lparr>readyState := CLOSED\<rparr>),
       pending_close := filter (\<lambda>k. k \<noteq> ws) (pending_close s),
       clients := map_delete ws (clients s),
       outbox := outbox s @ deliveries ?m None s (map_delete ws (clients s))\<rparr>"
    using d by (simp add: e)
  finally show ?thesis .
qed

lemma close_unknown: "conn s ws = None \<Longrightarrow> step fmt (Close ws clk) s = s"
  by (simp add: emit_close_def on_close_def)

lemma on_connection_eq:
  assumes "ws \<notin> set (clients s)"
  shows "on_connection ws clientIp clk s =
     s\<lparr>clientCounter := clientCounter s + 1,
       conn := (conn s)(ws \<mapsto> \<lparr>readyState = OPEN, isAlive = True,
          info = \<lparr>client_id = clientCounter s + 1, ip = clientIp, connectedAt = clk 0,
             username = ''User_'' @ show_nat (clientCounter s + 1), info_isAlive = True\<rparr>\<rparr>),
       clients := clients s @ [ws],
       outbox := outbox s @ (ws, welcome_msg (clientCounter s + 1) (clk 1))
         # deliveries (user_joined_msg (''User_'' @ show_nat (clientCounter s + 1))
              (clientCounter s + 1) (clk 2)) None s (clients s)
         @ [(ws, with_ack (user_joined_msg (''User_'' @ show_nat (clientCounter s + 1))
              (clientCounter s + 1) (clk 2)))]\<rparr>"
proof -
  let ?n = "clientCounter s + 1"
  let ?c = "\<lparr>readyState = OPEN, isAlive = True,
          info = \<lparr>client_id = ?n, ip = clientIp, connectedAt = clk 0,
             username = ''User_'' @ show_nat ?n, info_isAlive = True\<rparr>\<rparr>"
  let ?m = "user_joined_msg (''User_'' @ show_nat ?n) ?n (clk 2)"
  let ?s1 = "s\<lparr>clientCounter := ?n, conn := (conn s)(ws \<mapsto> ?c), clients := clients s @ [ws]\<rparr>"
  let ?s2 = "send ws (welcome_msg ?n (clk 1)) ?s1"
  have o: "is_open ?s2 ws" by (simp add: is_open_def)
  have "deliveries ?m None ?s2 (clients s) = deliveries ?m None s (clients s)"
    by (rule deliveries_filter_cong) (use assms in \<open>auto simp: is_open_def\<close>)
  with assms have d: "deliveries ?m (Some ws) ?s2 (clients s) = deliveries ?m None s (clients s)"
    by (simp add: deliveries_not_sender)
  have "deliveries ?m (Some ws) ?s2 (clients s @ [ws])
      = deliveries ?m None s (clients s) @ [(ws, with_ack ?m)]"
    using o d by (simp add: deliveries_def)
  then show ?thesis
    using assms
    by (simp add: on_connection_def Let_def map_set_def broadcastMessage_eq)
qed

lemma inbox_of_Cons: "inbox_of w ((v, m) # xs) = (if v = w then [m] else []) @ inbox_of w xs"
  by (simp add: inbox_of_def)

lemma inbox_of_Nil [simp]: "inbox_of w [] = []"
  by (simp add: inbox_of_def)

lemma join_inbox:
  assumes "ws \<notin> set ks" and "distinct ks"
  shows "inbox_of w ((ws, a) # deliveries j None s ks @ [(ws, b)])
     = (if w = ws then [a, b] else if w \<in> set ks \<and> is_open s w then [j] else [])"
  using assms(1) by (auto simp: inbox_of_Cons inbox_of_deliveries [OF assms(2)])

lemma two_clients_eq:
  "two_clients =
     \<lparr>clients = [1, 2], clientCounter = 2,
      conn = [1 \<mapsto> new_client 1, 2 \<mapsto> new_client 2],
      outbox = outbox two_clients, probes = [], pending_close = []\<rparr>"
  by (simp add: two_clients_def init_def on_connection_def send_def
      broadcastMessage_eq map_set_def new_client_def clk0_def Let_def
      numeral_2_eq_2 [symmetric])

lemma inv_cong:
  "clients s' = clients s \<Longrightarrow> clientCounter s' = clientCounter s \<Longrightarrow> id_of s' = id_of s
    \<Longrightarrow> inv s' = inv s"
  by (simp add: inv_def)

lemma inv_init: "inv init"
  by (simp add: inv_def init_def id_of_def)

lemma id_of_beat [simp]: "client_id (info (beat c)) = client_id (info c)"
  by (simp add: beat_def)

lemma heartbeat_loop_static:
  "clients (heartbeat_loop ks s) = clients s \<and> clientCounter (heartbeat_loop ks s) = clientCounter s
   \<and> outbox (heartbeat_loop ks s) = outbox s \<and> id_of (heartbeat_loop ks s) = id_of s"
proof (induction ks arbitrary: s)
  case Nil
  show ?case by simp
next
  case (Cons k ks)
  have "id_of (heartbeat_one k s) = id_of s"
    by (rule ext) (simp add: id_of_def heartbeat_one_eq option.map_comp comp_def)
  then show ?case
    by (simp add: Cons.IH) (simp add: heartbeat_one_eq)
qed

lemma heartbeat_static:
  "clients (heartbeat s) = clients s" "clientCounter (heartbeat s) = clientCounter s"
  "outbox (heartbeat s) = outbox s" "id_of (heartbeat s) = id_of s"
  using heartbeat_loop_static [of "clients s" s] by (simp_all add: heartbeat_def)

lemma on_pong_static:
  "clients (on_pong ws s) = clients s" "clientCounter (on_pong ws s) = clientCounter s"
  "outbox (on_pong ws s) = outbox s" "id_of (on_pong ws s) = id_of s"
  "probes (on_pong ws s) = probes s" "pending_close (on_pong ws s) = pending_close s"
  by (rule_tac [4] ext) (simp_all add: on_pong_def id_of_def split: option.splits)

lemma invD:
  assumes "inv s"
  shows "distinct (clients s)"
    and "h \<in> set (clients s) \<Longrightarrow> id_of s h \<noteq> None"
    and "id_of s h = Some m \<Longrightarrow> 1 \<le> m \<and> m \<le> clientCounter s"
    and "id_of s h = Some m \<Longrightarrow> id_of s h' = Some m \<Longrightarrow> h = h'"
proof -
  from assms have a: "distinct (clients s)"
    and b: "\<forall>h \<in> set (clients s). id_of s h \<noteq> None"
    and c: "\<forall>h n. id_of s h = Some n \<longrightarrow> 1 \<le> n \<and> n \<le> clientCounter s"
    and d: "\<forall>h h' n. id_of s h = Some n \<and> id_of s h' = Some n \<longrightarrow> h = h'"
    unfolding inv_def by (rule conjunct1, rule conjunct2 [THEN conjunct1],
      rule conjunct2 [THEN conjunct2, THEN conjunct1], rule conjunct2 [THEN conjunct2, THEN conjunct2])
  show "distinct (clients s)" by (rule a)
  show "h \<in> set (clients s) \<Longrightarrow> id_of s h \<noteq> None" using b by blast
  show "id_of s h = Some m \<Longrightarrow> 1 \<le> m \<and> m \<le> clientCounter s" using c by blast
  show "id_of s h = Some m \<Longrightarrow> id_of s h' = Some m \<Longrightarrow> h = h'" using d by blast
qed

lemma invI:
  assumes "distinct (clients s)"
    and "\<And>h. h \<in> set (clients s) \<Longrightarrow> id_of s h \<noteq> None"
    and "\<And>h m. id_of s h = Some m \<Longrightarrow> 1 \<le> m \<and> m \<le> clientCounter s"
    and "\<And>h h' m. id_of s h = Some m \<Longrightarrow> id_of s h' = Some m \<Longrightarrow> h = h'"
  shows "inv s"
  unfolding inv_def using assms by blast

lemma inv_fresh:
  assumes "inv s" and "conn s ws = None"
  shows "ws \<notin> set (clients s)"
proof
  assume "ws \<in> set (clients s)"
  then have "id_of s ws \<noteq> None" by (rule invD(2) [OF assms(1)])
  with assms(2) show False by (simp add: id_of_def)
qed

lemma inv_on_connection:
  assumes "inv s" and "conn s ws = None"
  shows "inv (on_connection ws clientIp clk s)"
proof -
  from assms have f: "ws \<notin> set (clients s)" by (rule inv_fresh)
  let ?s' = "on_connection ws clientIp clk s"
  have c: "clients ?s' = clients s @ [ws]" and n: "clientCounter ?s' = clientCounter s + 1"
    by (simp_all add: on_connection_eq [OF f])
  have i: "id_of ?s' h = (if h = ws then Some (clientCounter s + 1) else id_of s h)" for h
    by (simp add: id_of_def on_connection_eq [OF f])
  note old = invD(3) [OF assms(1)] and uniq = invD(4) [OF assms(1)] and reg = invD(2) [OF assms(1)]
  show ?thesis
  proof (rule invI)
    show "distinct (clients ?s')" using invD(1) [OF assms(1)] f by (simp add: c)
  next
    fix h assume "h \<in> set (clients ?s')"
    then have "h = ws \<or> h \<in> set (clients s)" by (auto simp: c)
    then show "id_of ?s' h \<noteq> None" using reg [of h] by (auto simp: i)
  next
    fix h m assume "id_of ?s' h = Some m"
    then have "m = clientCounter s + 1 \<or> id_of s h = Some m"
      by (simp add: i split: if_splits)
    then show "1 \<le> m \<and> m \<le> clientCounter ?s'"
      using old [of h m] by (auto simp: n)
  next
    fix h h' m
    assume a: "id_of ?s' h = Some m" and b: "id_of ?s' h' = Some m"
    show "h = h'"
    proof (cases "h = ws")
      case True
      with a have m: "m = clientCounter s + 1" by (simp add: i)
      show ?thesis
      proof (rule ccontr)
        assume "h \<noteq> h'"
        with True b have "id_of s h' = Some m" by (simp add: i)
        from old [OF this] m show False by simp
      qed
    next
      case False
      with a have a': "id_of s h = Some m" by (simp add: i)
      show ?thesis
      proof (cases "h' = ws")
        case True
        with b have "m = clientCounter s + 1" by (simp add: i)
        with old [OF a'] show ?thesis by simp
      next
        case False
        with b have "id_of s h' = Some m" by (simp add: i)
        with a' show ?thesis by (rule uniq)
      qed
    qed
  qed
qed

lemma inv_close: "inv s \<Longrightarrow> inv (step fmt (Close ws clk) s)"
proof (cases "conn s ws")
  case None
  assume "inv s"
  with None show ?thesis by (simp only: close_unknown)
next
  case (Some c)
  assume i: "inv s"
  let ?s' = "step fmt (Close ws clk) s"
  have c: "clients ?s' = map_delete ws (clients s)" and n: "clientCounter ?s' = clientCounter s"
    unfolding close_eq [OF Some] by simp_all
  have io: "id_of ?s' = id_of s"
    unfolding close_eq [OF Some] by (rule ext) (simp add: id_of_def Some)
  show ?thesis
  proof (rule invI)
    show "distinct (clients ?s')" using invD(1) [OF i] unfolding c by (simp add: map_delete_def)
  next
    fix h assume "h \<in> set (clients ?s')"
    then have "h \<in> set (clients s)" unfolding c by (simp add: map_delete_def)
    then show "id_of ?s' h \<noteq> None" unfolding io by (rule invD(2) [OF i])
  next
    fix h m assume "id_of ?s' h = Some m"
    then show "1 \<le> m \<and> m \<le> clientCounter ?s'" unfolding io n by (rule invD(3) [OF i])
  next
    fix h h' m
    assume "id_of ?s' h = Some m" "id_of ?s' h' = Some m"
    then show "h = h'" unfolding io by (rule invD(4) [OF i])
  qed
qed

lemma close_frame_static:
  "clients (close_frame ws s) = clients s" "clientCounter (close_frame ws s) = clientCounter s"
  "outbox (close_frame ws s) = outbox s" "probes (close_frame ws s) = probes s"
  "id_of (close_frame ws s) = id_of s"
  by (rule_tac [5] ext) (simp_all add: close_frame_def id_of_def split: option.splits)

lemma live_close_frame: "live (close_frame ws s) = live s"
  by (rule ext) (simp add: close_frame_def live_def split: option.splits)

lemma live_beat: "readyState (beat c) \<noteq> CLOSED \<longleftrightarrow> readyState c \<noteq> CLOSED"
  by (simp add: beat_def)

lemma heartbeat_loop_live: "live (heartbeat_loop ks s) = live s"
proof (induction ks arbitrary: s)
  case Nil
  show ?case by simp
next
  case (Cons k ks)
  have "live (heartbeat_one k s) = live s"
    by (rule ext) (simp add: live_def heartbeat_one_eq live_beat split: option.splits)
  then show ?case by (simp add: Cons.IH)
qed

lemma live_heartbeat: "live (heartbeat s) = live s"
  by (simp add: heartbeat_def heartbeat_loop_live)

lemma inv_step: "inv s \<Longrightarrow> deliverable s e \<Longrightarrow> inv (step fmt e s)"
proof (cases e)
  case (Connect ws clientIp clk)
  assume "inv s" "deliverable s e"
  with Connect show ?thesis by (simp add: inv_on_connection)
next
  case (Message ws data clk)
  assume i: "inv s"
  have f: "frame s (on_message fmt ws data clk s)" by (rule on_message_frame)
  then have "inv (on_message fmt ws data clk s) = inv s"
    by (intro inv_cong frame_id_of) (simp_all add: frame_def)
  with i Message show ?thesis by simp
next
  case (CloseFrame ws)
  assume "inv s"
  with CloseFrame show ?thesis
    by (simp add: inv_cong [of "close_frame ws s" s] close_frame_static)
next
  case (Close ws clk)
  assume "inv s"
  with Close show ?thesis by (simp only: inv_close)
next
  case (Pong ws)
  assume "inv s"
  with Pong show ?thesis by (simp add: inv_cong [of "on_pong ws s" s] on_pong_static)
next
  case Tick
  assume "inv s"
  with Tick show ?thesis by (simp add: inv_cong [of "heartbeat s" s] heartbeat_static)
qed

lemma inv_exec: "inv s \<Longrightarrow> trace fmt s es \<Longrightarrow> inv (exec fmt es s)"
  by (induction es arbitrary: s) (simp_all add: inv_step)

lemma inv_reachable: "trace fmt init es \<Longrightarrow> inv (exec fmt es init)"
  by (rule inv_exec [OF inv_init])

subsection \<open>The records of the registry\<close>

lemma map_filter_total:
  "(\<And>x. x \<in> set xs \<Longrightarrow> f x \<noteq> None) \<Longrightarrow> map Some (List.map_filter f xs) = map f xs"
  by (induction xs) (auto simp: List.map_filter_simps split: option.splits)

lemma client_values_total:
  assumes "inv s"
  shows "map Some (client_values s) = map (\<lambda>h. map_option info (conn s h)) (clients s)"
  unfolding client_values_def
proof (rule map_filter_total)
  fix h assume "h \<in> set (clients s)"
  then have "id_of s h \<noteq> None" by (rule invD(2) [OF assms])
  then show "map_option info (conn s h) \<noteq> None" by (simp add: id_of_def)
qed

lemma client_values_ids:
  assumes "inv s"
  shows "map (\<lambda>ci. Some (client_id ci)) (client_values s) = map (id_of s) (clients s)"
proof -
  have "map (\<lambda>ci. Some (client_id ci)) (client_values s)
      = map (map_option client_id) (map Some (client_values s))"
    by (simp add: comp_def)
  also have "\<dots> = map (id_of s) (clients s)"
    unfolding client_values_total [OF assms]
    by (simp add: id_of_def comp_def option.map_comp)
  finally show ?thesis .
qed

lemma distinct_ids:
  assumes "inv s"
  shows "distinct (map (id_of s) (clients s))"
proof -
  have "inj_on (id_of s) (set (clients s))"
  proof (rule inj_onI)
    fix h h'
    assume h: "h \<in> set (clients s)" and "h' \<in> set (clients s)" and e: "id_of s h = id_of s h'"
    from invD(2) [OF assms h] obtain m where m: "id_of s h = Some m" by auto
    with e have "id_of s h' = Some m" by simp
    with m show "h = h'" by (rule invD(4) [OF assms])
  qed
  with invD(1) [OF assms] show ?thesis by (simp add: distinct_map)
qed

lemma distinct_client_ids:
  assumes "inv s"
  shows "distinct (map client_id (client_values s))"
proof -
  have "map Some (map client_id (client_values s)) = map (id_of s) (clients s)"
    using client_values_ids [OF assms] by (simp add: comp_def)
  with distinct_ids [OF assms] have "distinct (map Some (map client_id (client_values s)))"
    by (simp only:)
  then show ?thesis
    using distinct_map [of Some "map client_id (client_values s)"] by blast
qed

lemma length_client_values: "inv s \<Longrightarrow> length (client_values s) = length (clients s)"
  using client_values_total [THEN arg_cong, of s length] by simp

lemma get_users_eq:
  assumes "conn s ws = Some c" and "field message ''type'' = Some (JStr ''get_users'')"
  shows "on_message fmt ws (Some message) clk s =
     send ws (user_list_msg (map user_entry (client_values s)) (length (clients s)) (clk 0)) s"
proof -
  from assms(2) have "message \<noteq> JNull" by (rule type_not_null)
  with assms show ?thesis
    by (simp add: on_message_def try_body_def get_users_case_def)
qed

lemma trace_three: "trace fmt0 init three_connects"
  by (simp add: three_connects_def init_def on_connection_def send_def broadcastMessage_eq
      map_set_def Let_def)

lemma client_values_three:
  "client_values three_clients = [info (new_client 1), info (new_client 2), info (new_client 3)]"
  by (simp add: client_values_def clients_three conn_three List.map_filter_simps)

subsection \<open>Ids and open sockets along a run\<close>

lemma on_connection_static:
  "clientCounter (on_connection ws clientIp clk s) = clientCounter s + 1"
  "id_of (on_connection ws clientIp clk s) ws = Some (clientCounter s + 1)"
  by (simp_all add: on_connection_def Let_def id_of_def)

lemma close_counter: "clientCounter (step fmt (Close ws clk) s) = clientCounter s"
  by (cases "conn s ws") (simp_all only: close_unknown close_eq, simp)

lemma counter_step:
  "clientCounter (step fmt e s) = clientCounter s + (if is_connect e then 1 else 0)"
proof (cases e)
  case (Connect ws clientIp clk)
  then show ?thesis by (simp add: on_connection_static)
next
  case (Message ws data clk)
  with on_message_frame [of s fmt ws data clk] show ?thesis by (simp add: frame_def)
next
  case (CloseFrame ws)
  then show ?thesis by (simp add: close_frame_static)
next
  case (Close ws clk)
  then show ?thesis by (simp only: close_counter) simp
next
  case (Pong ws)
  then show ?thesis by (simp add: on_pong_static)
next
  case Tick
  then show ?thesis by (simp add: heartbeat_static)
qed

lemma upt_0_Suc: "[0 ..< Suc k] = 0 # map Suc [0 ..< k]"
  by (simp add: upt_conv_Cons map_Suc_upt del: upt_Suc)

lemma assigned_offsets:
  "assigned fmt es s
     = map (\<lambda>i. Some (clientCounter s + 1 + i)) [0 ..< length (filter is_connect es)]"
proof (induction es arbitrary: s)
  case Nil
  show ?case by simp
next
  case (Cons e es)
  let ?k = "length (filter is_connect es)"
  show ?case
  proof (cases "is_connect e")
    case True
    then obtain ws clientIp clk where e: "e = Connect ws clientIp clk" by (cases e) auto
    have "assigned fmt (e # es) s
        = Some (clientCounter s + 1) # assigned fmt es (step fmt e s)"
      by (simp add: e on_connection_static)
    also have "assigned fmt es (step fmt e s)
        = map (\<lambda>i. Some (clientCounter s + 1 + 1 + i)) [0 ..< ?k]"
      unfolding Cons.IH counter_step by (simp add: e)
    also have "Some (clientCounter s + 1) # map (\<lambda>i. Some (clientCounter s + 1 + 1 + i)) [0 ..< ?k]
        = map (\<lambda>i. Some (clientCounter s + 1 + i)) [0 ..< Suc ?k]"
      unfolding upt_0_Suc by (simp add: comp_def)
    finally show ?thesis by (simp add: e del: upt_Suc)
  next
    case False
    then have "assigned fmt (e # es) s = assigned fmt es (step fmt e s)"
      by (cases e) auto
    with False show ?thesis by (simp add: Cons.IH counter_step)
  qed
qed

lemma assigned_eq:
  "assigned fmt es init = map Some [1 ..< Suc (length (filter is_connect es))]"
proof -
  have "map Some [1 ..< Suc (length (filter is_connect es))]
      = map Some (map Suc [0 ..< length (filter is_connect es)])"
    by (simp only: map_Suc_upt One_nat_def)
  also have "\<dots> = assigned fmt es init"
    by (simp add: assigned_offsets init_def comp_def)
  finally show ?thesis by simp
qed

lemma live_on_pong: "live (on_pong ws s) = live s"
  by (rule ext) (simp add: on_pong_def live_def split: option.splits)

lemma reg_live_step:
  assumes "inv s" and "reg_live s" and "deliverable s e"
  shows "reg_live (step fmt e s)"
proof (cases e)
  case (Connect ws clientIp clk)
  with assms(3) have n: "conn s ws = None" by simp
  with assms(1) have f: "ws \<notin> set (clients s)" by (rule inv_fresh)
  have "live (on_connection ws clientIp clk s) h = (h = ws \<or> live s h)" for h
    by (simp add: on_connection_eq [OF f] live_def n)
  with assms(2) show ?thesis
    by (simp add: Connect reg_live_def on_connection_eq [OF f, THEN arg_cong, of clients])
next
  case (Message ws data clk)
  have f: "frame s (on_message fmt ws data clk s)" by (rule on_message_frame)
  with assms(2) show ?thesis
    by (simp add: Message reg_live_def frame_live [OF f]) (simp add: frame_def)
next
  case (CloseFrame ws)
  with assms(2) show ?thesis
    by (simp add: reg_live_def live_close_frame close_frame_static)
next
  case (Close ws clk)
  with assms(3) obtain c where c: "conn s ws = Some c"
    by (auto simp: live_def split: option.splits)
  have o: "live (step fmt (Close ws clk) s) h = (h \<noteq> ws \<and> live s h)" for h
    unfolding close_eq [OF c] by (simp add: live_def)
  have "clients (step fmt (Close ws clk) s) = map_delete ws (clients s)"
    unfolding close_eq [OF c] by simp
  with assms(2) o show ?thesis
    unfolding Close reg_live_def by (auto simp: map_delete_def)
next
  case (Pong ws)
  with assms(2) show ?thesis by (simp add: reg_live_def live_on_pong on_pong_static)
next
  case Tick
  with assms(2) show ?thesis by (simp add: reg_live_def live_heartbeat heartbeat_static)
qed

lemma reg_live_exec:
  "inv s \<Longrightarrow> reg_live s \<Longrightarrow> trace fmt s es \<Longrightarrow> reg_live (exec fmt es s)"
proof (induction es arbitrary: s)
  case Nil
  then show ?case by simp
next
  case (Cons e es)
  then have "inv (step fmt e s)" "reg_live (step fmt e s)"
    by (simp_all add: inv_step reg_live_step)
  with Cons.prems show ?case by (simp add: Cons.IH)
qed

lemma trace_take: "trace fmt s es \<Longrightarrow> trace fmt s (take n es)"
proof (induction es arbitrary: s n)
  case Nil
  then show ?case by simp
next
  case (Cons e es)
  then show ?case by (cases n) simp_all
qed

lemma reg_live_card:
  assumes "reg_live s" and "distinct (clients s)"
  shows "length (clients s) = card {h. live s h}"
proof -
  from assms(1) have "{h. live s h} = set (clients s)" by (auto simp: reg_live_def)
  with assms(2) show ?thesis by (simp add: distinct_card)
qed

lemma is_open_live: "is_open s h \<Longrightarrow> live s h"
  by (simp add: is_open_def live_def split: option.splits)

lemma trace_closing: "trace fmt0 init closing_run"
  by (simp add: closing_run_def init_def on_connection_def send_def broadcastMessage_eq
      map_set_def Let_def live_def close_frame_def)

lemma closing_run_state:
  "clients (exec fmt0 closing_run init) = [1, 2, 3]"
  "is_open (exec fmt0 closing_run init) h = (h = 2 \<or> h = 3)"
  by (simp_all add: closing_run_def init_def on_connection_def send_def broadcastMessage_eq
      map_set_def Let_def is_open_def close_frame_def numeral_2_eq_2 [symmetric]
      numeral_3_eq_3 [symmetric])

lemma trace_connect_close: "trace fmt0 init connect_close_run"
  by (simp add: connect_close_run_def init_def on_connection_def send_def broadcastMessage_eq
      map_set_def Let_def live_def emit_close_def on_close_def close_frame_def)

subsection \<open>Heartbeats and quiet events\<close>

lemma count_list_filter_distinct:
  "distinct ks \<Longrightarrow> count_list (filter P ks) w = (if w \<in> set ks \<and> P w then 1 else 0)"
  by (induction ks) auto

lemma count_list_app: "count_list (xs @ ys) w = count_list xs w + count_list ys w"
  by (induction xs) auto

lemma heartbeat_alive:
  assumes "distinct (clients s)" and "ws \<in> set (clients s)" and "conn s ws = Some c"
    and "isAlive c"
  shows "conn (heartbeat s) ws = Some (c\<lparr>isAlive := False\<rparr>)"
    and "count_list (probes (heartbeat s)) ws = count_list (probes s) ws + 1"
    and "ws \<in> set (pending_close (heartbeat s)) \<longleftrightarrow> ws \<in> set (pending_close s)"
proof -
  note e = heartbeat_eq [OF assms(1)]
  from assms(3,4) have a: "alive s ws" and n: "\<not> stale s ws"
    by (simp_all add: alive_def stale_def)
  show "conn (heartbeat s) ws = Some (c\<lparr>isAlive := False\<rparr>)"
    using assms(2-4) by (simp add: e beat_def)
  show "count_list (probes (heartbeat s)) ws = count_list (probes s) ws + 1"
    using assms(2) a by (simp add: e count_list_app count_list_filter_distinct [OF assms(1)])
  show "ws \<in> set (pending_close (heartbeat s)) \<longleftrightarrow> ws \<in> set (pending_close s)"
    using n by (simp add: e)
qed

lemma heartbeat_stale:
  assumes "distinct (clients s)" and "ws \<in> set (clients s)" and "conn s ws = Some c"
    and "\<not> isAlive c" and "readyState c = OPEN"
  shows "conn (heartbeat s) ws = Some (c\<lparr>readyState := CLOSING\<rparr>)"
    and "count_list (probes (heartbeat s)) ws = count_list (probes s) ws"
    and "ws \<in> set (pending_close (heartbeat s))"
proof -
  note e = heartbeat_eq [OF assms(1)]
  from assms(3-5) have a: "\<not> alive s ws" and n: "stale s ws"
    by (simp_all add: alive_def stale_def)
  show "conn (heartbeat s) ws = Some (c\<lparr>readyState := CLOSING\<rparr>)"
    using assms(2-5) by (simp add: e beat_def)
  show "count_list (probes (heartbeat s)) ws = count_list (probes s) ws"
    using a by (simp add: e count_list_app count_list_filter_distinct [OF assms(1)])
  show "ws \<in> set (pending_close (heartbeat s))"
    using n assms(2) by (simp add: e)
qed

lemma on_connection_clients: "clients (on_connection ws clientIp clk s) = map_set ws (clients s)"
  by (simp add: on_connection_def Let_def)

lemma close_clients:
  "clients (step fmt (Close ws clk) s)
     = (if conn s ws = None then clients s else map_delete ws (clients s))"
  by (cases "conn s ws") (simp_all only: close_unknown close_eq, simp_all)

lemma distinct_step: "distinct (clients s) \<Longrightarrow> distinct (clients (step fmt e s))"
proof (cases e)
  case (Connect ws clientIp clk)
  assume "distinct (clients s)"
  with Connect show ?thesis by (simp add: on_connection_clients map_set_def)
next
  case (Message ws data clk)
  assume "distinct (clients s)"
  with Message on_message_frame [of s fmt ws data clk] show ?thesis by (simp add: frame_def)
next
  case (CloseFrame ws)
  assume "distinct (clients s)"
  with CloseFrame show ?thesis by (simp add: close_frame_static)
next
  case (Close ws clk)
  assume "distinct (clients s)"
  then show ?thesis unfolding Close close_clients by (simp add: map_delete_def)
next
  case (Pong ws)
  assume "distinct (clients s)"
  with Pong show ?thesis by (simp add: on_pong_static)
next
  case Tick
  assume "distinct (clients s)"
  with Tick show ?thesis by (simp add: heartbeat_static)
qed

lemma distinct_exec: "distinct (clients s) \<Longrightarrow> distinct (clients (exec fmt es s))"
  by (induction es arbitrary: s) (simp_all add: distinct_step)

lemma untouched_refl [simp]: "untouched ws s s"
  by (simp add: untouched_def)

lemma untouched_trans: "untouched ws s s' \<Longrightarrow> untouched ws s' s'' \<Longrightarrow> untouched ws s s''"
  by (simp add: untouched_def)

lemma quiet_step:
  assumes "quiet ws e"
  shows "untouched ws s (step fmt e s)"
proof (cases e)
  case (Connect w clientIp clk)
  with assms have "w \<noteq> ws" by simp
  then show ?thesis
    unfolding Connect untouched_def
    by (simp add: on_connection_def Let_def fixed_part_def map_set_def)
next
  case (Message w data clk)
  with on_message_frame [of s fmt w data clk] show ?thesis
    by (simp add: untouched_def frame_def)
next
  case (CloseFrame w)
  with assms have "w \<noteq> ws" by simp
  then show ?thesis
    unfolding CloseFrame untouched_def
    by (simp add: close_frame_def fixed_part_def split: option.splits)
next
  case (Close w clk)
  with assms have ne: "w \<noteq> ws" by simp
  show ?thesis
  proof (cases "conn s w")
    case None
    then show ?thesis unfolding Close by (simp only: close_unknown untouched_refl)
  next
    case (Some c)
    from ne show ?thesis
      unfolding Close close_eq [OF Some] untouched_def
      by (simp add: fixed_part_def map_delete_def)
  qed
next
  case (Pong w)
  with assms have "w \<noteq> ws" by simp
  then show ?thesis
    unfolding Pong untouched_def
    by (simp add: on_pong_def fixed_part_def split: option.splits)
next
  case Tick
  with assms show ?thesis by simp
qed

lemma quiet_exec: "list_all (quiet ws) es \<Longrightarrow> untouched ws s (exec fmt es s)"
proof (induction es arbitrary: s)
  case Nil
  show ?case by simp
next
  case (Cons e es)
  then have "untouched ws s (step fmt e s)" "untouched ws (step fmt e s) (exec fmt es (step fmt e s))"
    by (simp_all add: quiet_step)
  then show ?case by (simp add: untouched_trans)
qed

lemma fixed_partD:
  assumes "fixed_part s' ws = fixed_part s ws" and "conn s ws = Some c"
  obtains c' where "conn s' ws = Some c'" and "readyState c' = readyState c"
    and "isAlive c' = isAlive c" and "client_id (info c') = client_id (info c)"
  using assms by (cases "conn s' ws") (auto simp: fixed_part_def)

lemma close_leave:
  assumes "distinct (clients s)" and "conn s ws = Some c"
  shows "clients (step fmt (Close ws clk) s) = map_delete ws (clients s)"
    and "inbox_of w (new_out s (step fmt (Close ws clk) s))
       = (if w \<in> set (clients (step fmt (Close ws clk) s)) \<and> is_open (step fmt (Close ws clk) s) w
          then [user_left_msg (username (info c)) (client_id (info c)) (clk 0)] else [])"
proof -
  let ?s' = "step fmt (Close ws clk) s"
  let ?m = "user_left_msg (username (info c)) (client_id (info c)) (clk 0)"
  show c: "clients ?s' = map_delete ws (clients s)"
    unfolding close_eq [OF assms(2)] by simp
  have o: "is_open ?s' h = (h \<noteq> ws \<and> is_open s h)" for h
    unfolding close_eq [OF assms(2)] by (simp add: is_open_def)
  have out: "new_out s ?s' = deliveries ?m None s (map_delete ws (clients s))"
    by (rule new_out_append) (simp only: close_eq [OF assms(2)], simp)
  from assms(1) have d: "distinct (map_delete ws (clients s))" by (simp add: map_delete_def)
  show "inbox_of w (new_out s ?s') = (if w \<in> set (clients ?s') \<and> is_open ?s' w then [?m] else [])"
    unfolding out c inbox_of_deliveries [OF d] o by (auto simp: map_delete_def)
qed

lemma pending_three: "pending_close three_clients = []"
  by (subst three_clients_eq) simp

section \<open>The chat broadcast\<close>

text \<open>
  C1 (as amended). A \<^verbatim>\<open>chat\<close> message whose text is a string that is not empty after
  trimming, sent on a connection with record \<open>c\<close>: every registered connection whose socket
  is open, the sender among them, gets exactly one message, the plain chat object with the
  sender's display name, its id and the text as sent, which has no \<^verbatim>\<open>acknowledged\<close>
  property; nothing is sent to any other socket, and the registry is unchanged.
\<close>

theorem chat_broadcast:
  assumes "conn s A = Some c"
    and "field message ''type'' = Some (JStr ''chat'')"
    and "field message ''text'' = Some (JStr t)"
    and "trim t \<noteq> []"
    and "distinct (clients s)"
  shows "let m = [(''type'', JStr ''chat''),
                  (''username'', JStr (username (info c))),
                  (''clientId'', JNum (of_nat (client_id (info c)))),
                  (''text'', JStr t),
                  (''timestamp'', JStr (clk 0))];
             s' = on_message fmt A (Some message) clk s
         in (\<forall>w. inbox_of w (new_out s s') = (if w \<in> set (clients s) \<and> is_open s w then [m] else []))
            \<and> map_of m ''acknowledged'' = None
            \<and> map fst (new_out s s') = filter (is_open s) (clients s)
            \<and> clients s' = clients s \<and> conn s' = conn s \<and> clientCounter s' = clientCounter s"
proof -
  let ?m = "chat_msg (username (info c)) (client_id (info c)) (JStr t) (clk 0)"
  let ?s' = "on_message fmt A (Some message) clk s"
  have eq: "?s' = s\<lparr>outbox := outbox s @ deliveries ?m None s (clients s)\<rparr>"
    using assms(1-4) by (rule chat_eq)
  have out: "new_out s ?s' = deliveries ?m None s (clients s)"
    by (rule new_out_append) (simp add: eq)
  have "\<forall>w. inbox_of w (new_out s ?s') = (if w \<in> set (clients s) \<and> is_open s w then [?m] else [])"
    by (simp add: out inbox_of_deliveries [OF assms(5)])
  moreover have "map_of ?m ''acknowledged'' = None"
    by (simp add: chat_msg_def)
  moreover have "map fst (new_out s ?s') = filter (is_open s) (clients s)"
    by (simp add: out deliveries_def comp_def)
  moreover have "clients ?s' = clients s \<and> conn ?s' = conn s \<and> clientCounter ?s' = clientCounter s"
    by (simp add: eq)
  ultimately show ?thesis by (simp add: Let_def chat_msg_def id_num_def)
qed

theorem chat_broadcast_witness:
  "inbox_of 2 (new_out three_clients
      (on_message fmt0 1 (obj [(''type'', JStr ''chat''), (''text'', JStr ''hi'')]) clk0 three_clients))
     = [[(''type'', JStr ''chat''), (''username'', JStr ''User_1''), (''clientId'', JNum 1),
         (''text'', JStr ''hi''), (''timestamp'', JStr (clk0 0))]]"
proof -
  let ?msg = "JObj [(''type'', JStr ''chat''), (''text'', JStr ''hi'')]"
  have h1: "conn three_clients 1 = Some (new_client 1)" by (simp add: conn_three)
  have h2: "field ?msg ''type'' = Some (JStr ''chat'')" by simp
  have h3: "field ?msg ''text'' = Some (JStr ''hi'')" by simp
  have h4: "trim ''hi'' \<noteq> []" by (simp add: trim_def is_space_def)
  have h5: "distinct (clients three_clients)" by (simp add: clients_three)
  from chat_broadcast [OF h1 h2 h3 h4 h5, of clk0 fmt0] show ?thesis
    by (simp add: Let_def clients_three is_open_three new_client_def show_nat_123 obj_def)
qed

text \<open>
  C1 as stated fails: with three open connections, what the sender 1 gets for its own
  \<^verbatim>\<open>chat\<close> is the plain object, which differs from the acknowledged one.
\<close>

theorem chat_sender_ack_counterexample:
  "is_open three_clients 1 \<and> is_open three_clients 2 \<and> is_open three_clients 3
   \<and> clients three_clients = [1, 2, 3]
   \<and> inbox_of 1 (new_out three_clients
        (on_message fmt0 1 (obj [(''type'', JStr ''chat''), (''text'', JStr ''hi'')]) clk0 three_clients))
      = [chat_msg ''User_1'' 1 (JStr ''hi'') (clk0 0)]
   \<and> chat_msg ''User_1'' 1 (JStr ''hi'') (clk0 0)
      \<noteq> with_ack (chat_msg ''User_1'' 1 (JStr ''hi'') (clk0 0))"
proof -
  have "chat_msg ''User_1'' 1 (JStr ''hi'') (clk0 0)
      \<noteq> with_ack (chat_msg ''User_1'' 1 (JStr ''hi'') (clk0 0))"
    by (simp add: chat_msg_def with_ack_def)
  moreover have "inbox_of 1 (new_out three_clients
        (on_message fmt0 1 (obj [(''type'', JStr ''chat''), (''text'', JStr ''hi'')]) clk0 three_clients))
      = [chat_msg ''User_1'' 1 (JStr ''hi'') (clk0 0)]"
    by (simp add: obj_def chat_eq [where c = "new_client 1" and t = "''hi''"] conn_three
        clients_three is_open_three trim_def is_space_def new_client_def show_nat_123
        new_out_def deliveries_def inbox_of_def)
  ultimately show ?thesis
    by (simp add: is_open_three clients_three)
qed

section \<open>The liveness monitor\<close>

text \<open>
  C2. A connection enters the state alive and open. Let \<open>ws\<close> be registered, open and
  alive, with no close event pending, and let \<open>es\<close> and \<open>es'\<close> be events that are quiet for
  \<open>ws\<close>. The first heartbeat clears the flag of \<open>ws\<close> and pings it exactly once. If no
  pong of \<open>ws\<close> arrives before the second heartbeat, that heartbeat sends it no ping and
  terminates it: the socket is no longer open and its close event is pending; when the
  library delivers that event, \<open>ws\<close> leaves the registry and every connection that is then
  registered and open is sent exactly one message, the \<^verbatim>\<open>user_left\<close> notice with the
  display name and the id of \<open>ws\<close>, and nothing else is sent. If the pong of \<open>ws\<close> arrives
  before the second heartbeat, \<open>ws\<close> is registered and open after it, with no close event
  pending.
\<close>

theorem liveness_eviction:
  assumes "distinct (clients s)" and "ws \<in> set (clients s)" and "conn s ws = Some c"
    and "readyState c = OPEN" and "isAlive c" and "ws \<notin> set (pending_close s)"
    and "list_all (quiet ws) es" and "list_all (quiet ws) es'"
  shows "let s1 = heartbeat s;
             s2 = heartbeat (exec fmt es s1);
             s3 = step fmt (Close ws clk) s2;
             t2 = heartbeat (exec fmt es' (on_pong ws (exec fmt es s1)))
         in (\<forall>w clientIp k s0. alive (on_connection w clientIp k s0) w
                \<and> is_open (on_connection w clientIp k s0) w)
          \<and> (conn s1 ws = Some (c\<lparr>isAlive := False\<rparr>)
             \<and> count_list (probes s1) ws = count_list (probes s) ws + 1
             \<and> ws \<notin> set (pending_close s1))
          \<and> (\<not> is_open s2 ws \<and> ws \<in> set (pending_close s2) \<and> ws \<in> set (clients s2)
             \<and> count_list (probes s2) ws = count_list (probes s1) ws)
          \<and> (ws \<notin> set (clients s3)
             \<and> (\<exists>c2. conn s2 ws = Some c2 \<and> client_id (info c2) = client_id (info c)
                  \<and> (\<forall>w. inbox_of w (new_out s2 s3)
                        = (if w \<in> set (clients s3) \<and> is_open s3 w
                           then [[(''type'', JStr ''user_left''),
                                  (''message'', JStr (username (info c2) @ '' left the chat'')),
                                  (''clientId'', JNum (of_nat (client_id (info c)))),
                                  (''timestamp'', JStr (clk 0))]]
                           else []))))
          \<and> (ws \<in> set (clients t2) \<and> is_open t2 ws \<and> ws \<notin> set (pending_close t2))"
proof -
  let ?s1 = "heartbeat s"
  let ?u = "exec fmt es ?s1"
  let ?s2 = "heartbeat ?u"
  let ?s3 = "step fmt (Close ws clk) ?s2"
  let ?v = "on_pong ws ?u"
  let ?v' = "exec fmt es' ?v"
  let ?t2 = "heartbeat ?v'"
  \<comment> \<open>the first tick\<close>
  note h1 = heartbeat_alive [OF assms(1,2,3,5)]
  have c1: "conn ?s1 ws = Some (c\<lparr>isAlive := False\<rparr>)" by (rule h1(1))
  have p1: "ws \<notin> set (pending_close ?s1)" using h1(3) assms(6) by simp
  have k1: "ws \<in> set (clients ?s1)" "distinct (clients ?s1)"
    using assms(1,2) by (simp_all add: heartbeat_static)
  have A: "conn ?s1 ws = Some (c\<lparr>isAlive := False\<rparr>)
      \<and> count_list (probes ?s1) ws = count_list (probes s) ws + 1
      \<and> ws \<notin> set (pending_close ?s1)"
    using c1 h1(2) p1 by simp
  \<comment> \<open>the events before the second tick\<close>
  have q: "untouched ws ?s1 ?u" using assms(7) by (rule quiet_exec)
  then have fu: "fixed_part ?u ws = fixed_part ?s1 ws" by (simp add: untouched_def)
  obtain cu where cu0: "conn ?u ws = Some cu" "readyState cu = readyState (c\<lparr>isAlive := False\<rparr>)"
      "isAlive cu = isAlive (c\<lparr>isAlive := False\<rparr>)"
      "client_id (info cu) = client_id (info (c\<lparr>isAlive := False\<rparr>))"
    using fixed_partD [OF fu c1] by blast
  then have cu: "conn ?u ws = Some cu" "readyState cu = OPEN"
      "\<not> isAlive cu" "client_id (info cu) = client_id (info c)"
    using assms(4) by simp_all
  have ku: "ws \<in> set (clients ?u)" "ws \<notin> set (pending_close ?u)" "probes ?u = probes ?s1"
    using q k1(1) p1 by (simp_all add: untouched_def)
  have du: "distinct (clients ?u)" using k1(2) by (rule distinct_exec)
  \<comment> \<open>the second tick, with no pong in between\<close>
  note h2 = heartbeat_stale [OF du ku(1) cu(1) cu(3) cu(2)]
  have B: "\<not> is_open ?s2 ws \<and> ws \<in> set (pending_close ?s2) \<and> ws \<in> set (clients ?s2)
      \<and> count_list (probes ?s2) ws = count_list (probes ?s1) ws"
    using h2 ku by (simp add: is_open_def heartbeat_static)
  have d2: "distinct (clients ?s2)" using du by (simp add: heartbeat_static)
  note l = close_leave [OF d2 h2(1), where fmt = fmt and clk = clk]
  have "ws \<notin> set (clients ?s3)" unfolding l(1) by (simp add: map_delete_def)
  moreover have "\<forall>w. inbox_of w (new_out ?s2 ?s3)
      = (if w \<in> set (clients ?s3) \<and> is_open ?s3 w
         then [[(''type'', JStr ''user_left''),
                (''message'', JStr (username (info (cu\<lparr>readyState := CLOSING\<rparr>)) @ '' left the chat'')),
                (''clientId'', JNum (of_nat (client_id (info c)))),
                (''timestamp'', JStr (clk 0))]]
         else [])"
    using l(2) cu(4) by (simp add: user_left_msg_def id_num_def)
  ultimately have C: "ws \<notin> set (clients ?s3)
      \<and> (\<exists>c2. conn ?s2 ws = Some c2 \<and> client_id (info c2) = client_id (info c)
           \<and> (\<forall>w. inbox_of w (new_out ?s2 ?s3)
                 = (if w \<in> set (clients ?s3) \<and> is_open ?s3 w
                    then [[(''type'', JStr ''user_left''),
                           (''message'', JStr (username (info c2) @ '' left the chat'')),
                           (''clientId'', JNum (of_nat (client_id (info c)))),
                           (''timestamp'', JStr (clk 0))]]
                    else [])))"
    using h2(1) cu(4) by (intro conjI exI [of _ "cu\<lparr>readyState := CLOSING\<rparr>"]) simp_all
  \<comment> \<open>the second tick after a pong\<close>
  have cv: "conn ?v ws = Some (cu\<lparr>isAlive := True\<rparr>)"
    using cu(1) by (simp add: on_pong_def)
  have kv: "ws \<in> set (clients ?v)" "ws \<notin> set (pending_close ?v)" "distinct (clients ?v)"
    using ku du by (simp_all add: on_pong_static)
  have q': "untouched ws ?v ?v'" using assms(8) by (rule quiet_exec)
  then have "fixed_part ?v' ws = fixed_part ?v ws" by (simp add: untouched_def)
  from fixed_partD [OF this cv]
  obtain cw where cw0: "conn ?v' ws = Some cw" "readyState cw = readyState (cu\<lparr>isAlive := True\<rparr>)"
      "isAlive cw = isAlive (cu\<lparr>isAlive := True\<rparr>)"
    by blast
  then have cw: "conn ?v' ws = Some cw" "readyState cw = OPEN" "isAlive cw"
    using cu(2) by simp_all
  have kw: "ws \<in> set (clients ?v')" "ws \<notin> set (pending_close ?v')"
    using q' kv by (simp_all add: untouched_def)
  have dw: "distinct (clients ?v')" using kv(3) by (rule distinct_exec)
  note h3 = heartbeat_alive [OF dw kw(1) cw(1) cw(3)]
  have D: "ws \<in> set (clients ?t2) \<and> is_open ?t2 ws \<and> ws \<notin> set (pending_close ?t2)"
    using h3 kw cw(2) by (simp add: is_open_def heartbeat_static)
  have E: "\<forall>w clientIp k s0. alive (on_connection w clientIp k s0) w
      \<and> is_open (on_connection w clientIp k s0) w"
    by (simp add: on_connection_def Let_def alive_def is_open_def)
  show ?thesis
    unfolding Let_def by (rule conjI [OF E conjI [OF A conjI [OF B conjI [OF C D]]]])
qed

text \<open>
  The theorem for connection 2 of the run of three connections, with a pong of connection
  1 between the heartbeats.
\<close>

theorem liveness_eviction_witness:
  "2 \<in> set (pending_close (heartbeat (on_pong 1 (heartbeat three_clients))))
   \<and> 2 \<notin> set (clients (step fmt0 (Close 2 clk0) (heartbeat (on_pong 1 (heartbeat three_clients)))))
   \<and> 2 \<in> set (clients (heartbeat (on_pong 2 (on_pong 1 (heartbeat three_clients)))))
   \<and> is_open (heartbeat (on_pong 2 (on_pong 1 (heartbeat three_clients)))) 2"
proof -
  have h: "distinct (clients three_clients)" "2 \<in> set (clients three_clients)"
    "conn three_clients 2 = Some (new_client 2)" "readyState (new_client 2) = OPEN"
    "isAlive (new_client 2)" "2 \<notin> set (pending_close three_clients)"
    "list_all (quiet 2) [Pong 1]" "list_all (quiet 2) []"
    by (simp_all add: clients_three conn_three pending_three new_client_def)
  from liveness_eviction [OF h, of fmt0 clk0] show ?thesis
    by (simp add: Let_def)
qed

section \<open>Client ids and the size of the registry\<close>

text \<open>
  C3 (as amended). For every run of events the library can deliver from the start (among
  them every run of connections and disconnections): every \<open>Connect\<close> is given an id,
  the ids given are 1, 2, 3, ... in this order (the first is 1, the sequence is strictly
  increasing, so no id is used twice), and after each event the registered sockets are
  exactly those handed over whose \<^verbatim>\<open>'close'\<close> event has not been delivered, the size of the
  registry is their number, every open socket is registered, the size is the number of
  open sockets whenever every registered socket is open, every key has its record, and no
  two records share an id.
\<close>

theorem registry_ids:
  assumes "trace fmt init es"
  shows "assigned fmt es init = map Some [1 ..< Suc (length (filter is_connect es))]
       \<and> sorted_wrt (<) [1 ..< Suc (length (filter is_connect es))]
       \<and> (\<forall>n \<le> length es.
            let s = exec fmt (take n es) init
            in length (clients s) = card {h. live s h}
               \<and> (\<forall>h. h \<in> set (clients s) \<longleftrightarrow> live s h)
               \<and> (\<forall>h. is_open s h \<longrightarrow> h \<in> set (clients s))
               \<and> ((\<forall>h \<in> set (clients s). is_open s h)
                    \<longrightarrow> length (clients s) = card {h. is_open s h})
               \<and> distinct (clients s)
               \<and> length (client_values s) = length (clients s)
               \<and> distinct (map client_id (client_values s)))"
proof (intro conjI allI impI)
  show "assigned fmt es init = map Some [1 ..< Suc (length (filter is_connect es))]"
    by (rule assigned_eq)
  show "sorted_wrt (<) [1 ..< Suc (length (filter is_connect es))]"
    by (rule sorted_wrt_upt)
next
  fix n
  let ?s = "exec fmt (take n es) init"
  from assms(1) have t: "trace fmt init (take n es)" by (rule trace_take)
  then have i: "inv ?s" by (rule inv_reachable)
  have "reg_live init" by (simp add: reg_live_def init_def live_def)
  with inv_init have r: "reg_live ?s" using t by (rule reg_live_exec)
  from r have a: "\<forall>h. h \<in> set (clients ?s) \<longleftrightarrow> live ?s h" by (simp add: reg_live_def)
  then have b: "\<forall>h. is_open ?s h \<longrightarrow> h \<in> set (clients ?s)" by (simp add: is_open_live)
  note k = reg_live_card [OF r invD(1) [OF i]]
  have c: "(\<forall>h \<in> set (clients ?s). is_open ?s h)
      \<longrightarrow> length (clients ?s) = card {h. is_open ?s h}"
  proof
    assume "\<forall>h \<in> set (clients ?s). is_open ?s h"
    with b have "{h. is_open ?s h} = set (clients ?s)" by auto
    with invD(1) [OF i] show "length (clients ?s) = card {h. is_open ?s h}"
      by (simp add: distinct_card)
  qed
  from a b c k invD(1) [OF i] length_client_values [OF i] distinct_client_ids [OF i]
  show "let s = ?s
        in length (clients s) = card {h. live s h}
           \<and> (\<forall>h. h \<in> set (clients s) \<longleftrightarrow> live s h)
           \<and> (\<forall>h. is_open s h \<longrightarrow> h \<in> set (clients s))
           \<and> ((\<forall>h \<in> set (clients s). is_open s h)
                \<longrightarrow> length (clients s) = card {h. is_open s h})
           \<and> distinct (clients s)
           \<and> length (client_values s) = length (clients s)
           \<and> distinct (map client_id (client_values s))"
    unfolding Let_def by (intro conjI)
qed

text \<open>
  The theorem for two connections, the disconnection of the first (its close frame, then
  its \<^verbatim>\<open>'close'\<close> event) and a third connection: the id 1 is not given again.
\<close>

theorem registry_ids_witness:
  "assigned fmt0 connect_close_run init = [Some 1, Some 2, Some 3]
   \<and> length (clients (exec fmt0 connect_close_run init))
       = card {h. live (exec fmt0 connect_close_run init) h}
   \<and> distinct (map client_id (client_values (exec fmt0 connect_close_run init)))"
proof -
  have l: "length connect_close_run = 5" "length (filter is_connect connect_close_run) = 3"
    by (simp_all add: connect_close_run_def)
  have u: "map Some [1 ..< Suc 3] = [Some 1, Some 2, Some (3::nat)]" by code_simp
  note T = registry_ids [OF trace_connect_close]
  from T have "assigned fmt0 connect_close_run init = map Some [1 ..< Suc 3]"
    unfolding l by (rule conjunct1)
  then have "assigned fmt0 connect_close_run init = [Some 1, Some 2, Some 3]"
    unfolding u .
  moreover from T [THEN conjunct2, THEN conjunct2, rule_format, of 5]
  have "length (clients (exec fmt0 connect_close_run init))
       = card {h. live (exec fmt0 connect_close_run init) h}
   \<and> distinct (map client_id (client_values (exec fmt0 connect_close_run init)))"
    by (simp add: l Let_def)
  ultimately show ?thesis by (simp only: simp_thms)
qed

text \<open>
  C3 as stated fails: when the close frame of connection 1 has arrived and its \<^verbatim>\<open>'close'\<close>
  event has not, a third connection leaves a registry of size 3 with 2 open sockets.
\<close>

theorem registry_size_counterexample:
  "trace fmt0 init closing_run
   \<and> length (clients (exec fmt0 closing_run init)) = 3
   \<and> card {h. is_open (exec fmt0 closing_run init) h} = 2"
proof -
  have "{h. is_open (exec fmt0 closing_run init) h} = {2, 3}"
    by (auto simp: closing_run_state(2))
  then have "card {h. is_open (exec fmt0 closing_run init) h} = 2" by simp
  with trace_closing show ?thesis by (simp add: closing_run_state(1))
qed

section \<open>Changing the display name\<close>

text \<open>
  C4 (as amended). A \<^verbatim>\<open>set_username\<close> message on a connection with record \<open>c\<close>. If
  \<^verbatim>\<open>username\<close> is a string that is not empty after trimming, the trimmed string becomes
  the display name of the sender's record and nothing else in the registry changes; the
  sender is sent the \<^verbatim>\<open>username_changed\<close> confirmation, and every registered connection
  whose socket is open, the sender included, is sent one \<^verbatim>\<open>user_renamed\<close> notice with the
  old and the new name and the sender's id. If \<^verbatim>\<open>username\<close> is absent, falsy, or a string
  that is empty after trimming, the state is left as it was: no reply, no change. If
  \<^verbatim>\<open>username\<close> is truthy and not a string, the only effect is one invalid-format \<^verbatim>\<open>error\<close>
  reply to the sender: no record is changed. These three cases are all there are.
\<close>

theorem set_username_routing:
  assumes "conn s ws = Some c"
    and "field message ''type'' = Some (JStr ''set_username'')"
    and "distinct (clients s)"
  shows "(\<forall>u. field message ''username'' = Some (JStr u) \<and> trim u \<noteq> [] \<longrightarrow>
           (let s' = on_message fmt ws (Some message) clk s;
                changed =
                  [(''type'', JStr ''username_changed''),
                   (''message'', JStr (''Username changed from '' @ [CHR 0x22]
                      @ username (info c) @ [CHR 0x22] @ '' to '' @ [CHR 0x22] @ trim u
                      @ [CHR 0x22])),
                   (''username'', JStr (trim u)),
                   (''timestamp'', JStr (clk 0))];
                renamed =
                  [(''type'', JStr ''user_renamed''),
                   (''message'', JStr (username (info c) @ '' changed username to '' @ trim u)),
                   (''oldUsername'', JStr (username (info c))),
                   (''newUsername'', JStr (trim u)),
                   (''clientId'', JNum (of_nat (client_id (info c)))),
                   (''timestamp'', JStr (clk 1))]
            in conn s' = (conn s)(ws \<mapsto> c\<lparr>info := (info c)\<lparr>username := trim u\<rparr>\<rparr>)
               \<and> clients s' = clients s \<and> clientCounter s' = clientCounter s
               \<and> (\<forall>w. inbox_of w (new_out s s') =
                     (if w = ws then [changed] else [])
                     @ (if w \<in> set (clients s) \<and> is_open s w then [renamed] else []))))
       \<and> (field message ''username'' = None
            \<or> (\<exists>v. field message ''username'' = Some v \<and> \<not> truthy v)
            \<or> (\<exists>u. field message ''username'' = Some (JStr u) \<and> trim u = [])
           \<longrightarrow> on_message fmt ws (Some message) clk s = s)
       \<and> ((\<exists>v. field message ''username'' = Some v \<and> truthy v \<and> not_a_string v) \<longrightarrow>
           (let s' = on_message fmt ws (Some message) clk s
            in outbox s' = outbox s @
                 [(ws, [(''type'', JStr ''error''),
                        (''message'', JStr ''Invalid message format. Expected JSON.''),
                        (''timestamp'', JStr (clk 0))])]
               \<and> conn s' = conn s \<and> clients s' = clients s
               \<and> clientCounter s' = clientCounter s))
       \<and> ((\<exists>u. field message ''username'' = Some (JStr u) \<and> trim u \<noteq> [])
            \<or> (field message ''username'' = None
                \<or> (\<exists>v. field message ''username'' = Some v \<and> \<not> truthy v)
                \<or> (\<exists>u. field message ''username'' = Some (JStr u) \<and> trim u = []))
            \<or> (\<exists>v. field message ''username'' = Some v \<and> truthy v \<and> not_a_string v))"
proof (intro conjI allI impI)
  fix u
  assume u: "field message ''username'' = Some (JStr u) \<and> trim u \<noteq> []"
  let ?s' = "on_message fmt ws (Some message) clk s"
  let ?changed = "username_changed_msg (username (info c)) (trim u) (clk 0)"
  let ?renamed = "user_renamed_msg (username (info c)) (trim u) (client_id (info c)) (clk 1)"
  have eq: "?s' = s\<lparr>conn := (conn s)(ws \<mapsto> c\<lparr>info := (info c)\<lparr>username := trim u\<rparr>\<rparr>),
       outbox := outbox s @ (ws, ?changed) # deliveries ?renamed None s (clients s)\<rparr>"
    using assms(1,2) u by (simp add: set_username_eq)
  have out: "new_out s ?s' = (ws, ?changed) # deliveries ?renamed None s (clients s)"
    by (rule new_out_append) (simp add: eq)
  have inb: "\<forall>w. inbox_of w (new_out s ?s') =
       (if w = ws then [?changed] else [])
       @ (if w \<in> set (clients s) \<and> is_open s w then [?renamed] else [])"
    using inbox_of_deliveries [OF assms(3), of _ ?renamed None s]
    by (simp add: out inbox_of_def)
  have st: "conn ?s' = (conn s)(ws \<mapsto> c\<lparr>info := (info c)\<lparr>username := trim u\<rparr>\<rparr>)"
    "clients ?s' = clients s" "clientCounter ?s' = clientCounter s"
    by (simp_all add: eq)
  show "let s' = ?s';
            changed =
              [(''type'', JStr ''username_changed''),
               (''message'', JStr (''Username changed from '' @ [CHR 0x22]
                  @ username (info c) @ [CHR 0x22] @ '' to '' @ [CHR 0x22] @ trim u
                  @ [CHR 0x22])),
               (''username'', JStr (trim u)),
               (''timestamp'', JStr (clk 0))];
            renamed =
              [(''type'', JStr ''user_renamed''),
               (''message'', JStr (username (info c) @ '' changed username to '' @ trim u)),
               (''oldUsername'', JStr (username (info c))),
               (''newUsername'', JStr (trim u)),
               (''clientId'', JNum (of_nat (client_id (info c)))),
               (''timestamp'', JStr (clk 1))]
        in conn s' = (conn s)(ws \<mapsto> c\<lparr>info := (info c)\<lparr>username := trim u\<rparr>\<rparr>)
           \<and> clients s' = clients s \<and> clientCounter s' = clientCounter s
           \<and> (\<forall>w. inbox_of w (new_out s s') =
                 (if w = ws then [changed] else [])
                 @ (if w \<in> set (clients s) \<and> is_open s w then [renamed] else []))"
    unfolding Let_def using inb st
    by (simp add: username_changed_msg_def user_renamed_msg_def id_num_def)
next
  assume "field message ''username'' = None
            \<or> (\<exists>v. field message ''username'' = Some v \<and> \<not> truthy v)
            \<or> (\<exists>u. field message ''username'' = Some (JStr u) \<and> trim u = [])"
  with assms(2) show "on_message fmt ws (Some message) clk s = s"
    by (rule set_username_ignored)
next
  assume "\<exists>v. field message ''username'' = Some v \<and> truthy v \<and> not_a_string v"
  with assms(2) have "throws fmt s (Some message)"
    by (auto simp: throws_def untrimmable_def)
  with assms(1) have "on_message fmt ws (Some message) clk s
      = send ws (error_msg invalid_format (clk 0)) s"
    by (rule throws_reply)
  then show "let s' = on_message fmt ws (Some message) clk s
        in outbox s' = outbox s @
             [(ws, [(''type'', JStr ''error''),
                    (''message'', JStr ''Invalid message format. Expected JSON.''),
                    (''timestamp'', JStr (clk 0))])]
           \<and> conn s' = conn s \<and> clients s' = clients s
           \<and> clientCounter s' = clientCounter s"
    by (simp add: Let_def error_literal)
next
  show "(\<exists>u. field message ''username'' = Some (JStr u) \<and> trim u \<noteq> [])
      \<or> (field message ''username'' = None
          \<or> (\<exists>v. field message ''username'' = Some v \<and> \<not> truthy v)
          \<or> (\<exists>u. field message ''username'' = Some (JStr u) \<and> trim u = []))
      \<or> (\<exists>v. field message ''username'' = Some v \<and> truthy v \<and> not_a_string v)"
  proof (cases "field message ''username''")
    case None
    then show ?thesis by simp
  next
    case (Some v)
    then show ?thesis by (cases v) auto
  qed
qed

text \<open>
  The theorem at the run of three connections, for the names \<open>" Alice "\<close> and \<open>"  "\<close> and
  for the username \<open>true\<close>.
\<close>

theorem set_username_routing_witness:
  "inbox_of 1 (new_out three_clients
      (on_message fmt0 1 (obj [(''type'', JStr ''set_username''), (''username'', JStr '' Alice '')])
         clk0 three_clients))
     = [username_changed_msg ''User_1'' ''Alice'' (clk0 0),
        user_renamed_msg ''User_1'' ''Alice'' 1 (clk0 1)]
   \<and> inbox_of 2 (new_out three_clients
      (on_message fmt0 1 (obj [(''type'', JStr ''set_username''), (''username'', JStr '' Alice '')])
         clk0 three_clients))
     = [user_renamed_msg ''User_1'' ''Alice'' 1 (clk0 1)]
   \<and> on_message fmt0 1 (obj [(''type'', JStr ''set_username''), (''username'', JStr ''  '')])
         clk0 three_clients = three_clients
   \<and> new_out three_clients
        (on_message fmt0 1 (obj [(''type'', JStr ''set_username''), (''username'', JBool True)])
           clk0 three_clients)
      = [(1, [(''type'', JStr ''error''),
              (''message'', JStr ''Invalid message format. Expected JSON.''),
              (''timestamp'', JStr (clk0 0))])]"
proof -
  let ?m = "\<lambda>u. JObj [(''type'', JStr ''set_username''), (''username'', u)]"
  have h1: "conn three_clients 1 = Some (new_client 1)" by (simp add: conn_three)
  have h2: "field (?m u) ''type'' = Some (JStr ''set_username'')" for u by simp
  have h3: "distinct (clients three_clients)" by (simp add: clients_three)
  note T = set_username_routing [OF h1 h2 h3, of _ fmt0 clk0]
  have "inbox_of w (new_out three_clients
        (on_message fmt0 1 (Some (?m (JStr '' Alice ''))) clk0 three_clients))
     = (if w = 1 then [username_changed_msg ''User_1'' ''Alice'' (clk0 0)] else [])
       @ (if w = 1 \<or> w = 2 \<or> w = 3 then [user_renamed_msg ''User_1'' ''Alice'' 1 (clk0 1)] else [])" for w
    using T [of "JStr '' Alice ''", THEN conjunct1, rule_format, of "'' Alice ''"]
    by (simp add: Let_def trim_Alice clients_three is_open_three new_client_def show_nat_123
        username_changed_msg_def user_renamed_msg_def id_num_def)
  moreover have "new_out three_clients
        (on_message fmt0 1 (Some (?m (JBool True))) clk0 three_clients)
      = [(1, [(''type'', JStr ''error''),
              (''message'', JStr ''Invalid message format. Expected JSON.''),
              (''timestamp'', JStr (clk0 0))])]"
    using T [of "JBool True", THEN conjunct2, THEN conjunct2, THEN conjunct1]
    by (simp add: Let_def new_out_def)
  ultimately show ?thesis
    using T [of "JStr ''  ''", THEN conjunct2, THEN conjunct1]
    by (simp add: obj_def trim_Alice)
qed

text \<open>
  C4 as stated fails: the username 5 is present and is answered with an error reply,
  so the message is neither applied nor silently ignored.
\<close>

theorem set_username_number_counterexample:
  "outbox (on_message fmt0 1 (obj [(''type'', JStr ''set_username''), (''username'', JNum 5)])
       clk0 three_clients)
     = outbox three_clients @
         [(1, [(''type'', JStr ''error''),
               (''message'', JStr ''Invalid message format. Expected JSON.''),
               (''timestamp'', JStr (clk0 0))])]
   \<and> on_message fmt0 1 (obj [(''type'', JStr ''set_username''), (''username'', JNum 5)])
       clk0 three_clients \<noteq> three_clients
   \<and> conn (on_message fmt0 1 (obj [(''type'', JStr ''set_username''), (''username'', JNum 5)])
       clk0 three_clients) 1 = Some (new_client 1)"
proof -
  have e: "on_message fmt0 1 (obj [(''type'', JStr ''set_username''), (''username'', JNum 5)])
       clk0 three_clients = send 1 (error_msg invalid_format (clk0 0)) three_clients"
    by (simp add: on_message_def try_body_def set_username_case_def conn_three obj_def)
  have "send 1 (error_msg invalid_format (clk0 0)) three_clients \<noteq> three_clients"
  proof
    assume "send 1 (error_msg invalid_format (clk0 0)) three_clients = three_clients"
    then have "outbox (send 1 (error_msg invalid_format (clk0 0)) three_clients)
        = outbox three_clients" by simp
    then show False by simp
  qed
  then show ?thesis
    unfolding e by (simp add: error_literal conn_three)
qed

section \<open>Chat messages without text\<close>

text \<open>
  C5. A \<^verbatim>\<open>chat\<close> message whose \<^verbatim>\<open>text\<close> is absent, falsy, or a string that is empty
  after trimming leaves the whole state as it was: no outbound message, no change of the
  registry.
\<close>

theorem chat_without_text_ignored:
  assumes "field message ''type'' = Some (JStr ''chat'')"
    and "field message ''text'' = None
         \<or> (\<exists>v. field message ''text'' = Some v \<and> \<not> truthy v)
         \<or> (\<exists>t. field message ''text'' = Some (JStr t) \<and> trim t = [])"
  shows "on_message fmt ws (Some message) clk s = s"
proof (cases "conn s ws")
  case None
  then show ?thesis by (simp add: on_message_def)
next
  case (Some c)
  from assms(1) have nn: "message \<noteq> JNull" by (rule type_not_null)
  from assms(2) have "chat_case ws (info c) message clk s = Inr s"
    by (auto simp: chat_case_def)
  with Some nn assms(1) show ?thesis
    by (simp add: on_message_def try_body_def)
qed

text \<open>The theorem for a missing, an empty and a blank text.\<close>

theorem chat_without_text_ignored_witness:
  "on_message fmt0 1 (obj [(''type'', JStr ''chat'')]) clk0 three_clients = three_clients
   \<and> on_message fmt0 1 (obj [(''type'', JStr ''chat''), (''text'', JStr '''')]) clk0 three_clients
       = three_clients
   \<and> on_message fmt0 1 (obj [(''type'', JStr ''chat''), (''text'', JStr ''  '')]) clk0 three_clients
       = three_clients"
  using chat_without_text_ignored [of "JObj [(''type'', JStr ''chat'')]" fmt0 1 clk0 three_clients]
    chat_without_text_ignored [of "JObj [(''type'', JStr ''chat''), (''text'', JStr '''')]"
      fmt0 1 clk0 three_clients]
    chat_without_text_ignored [of "JObj [(''type'', JStr ''chat''), (''text'', JStr ''  '')]"
      fmt0 1 clk0 three_clients]
  by (simp add: obj_def trim_def is_space_def)

section \<open>Private messages\<close>




section \<open>Payloads that are not JSON\<close>

text \<open>
  C7 (as amended). For a payload that does not parse, the only effect is one \<^verbatim>\<open>error\<close>
  envelope with the invalid-format text sent to the sender: the connection and the
  registry are as before. The same reply is given whenever the dispatch of a parsed
  payload throws (\<open>throws\<close>), and the \<^verbatim>\<open>catch\<close> clause is reached in no other case.
\<close>

theorem parse_error_reply:
  assumes "conn s ws = Some c"
  shows "on_message fmt ws None clk s = send ws (error_msg invalid_format (clk 0)) s
       \<and> outbox (on_message fmt ws None clk s) = outbox s @
            [(ws, [(''type'', JStr ''error''),
                   (''message'', JStr ''Invalid message format. Expected JSON.''),
                   (''timestamp'', JStr (clk 0))])]
       \<and> conn (on_message fmt ws None clk s) = conn s
       \<and> clients (on_message fmt ws None clk s) = clients s
       \<and> clientCounter (on_message fmt ws None clk s) = clientCounter s
       \<and> (\<forall>data. throws fmt s data \<longrightarrow>
             on_message fmt ws data clk s = send ws (error_msg invalid_format (clk 0)) s)
       \<and> (\<forall>data. \<not> throws fmt s data \<longrightarrow>
             try_body fmt ws (info c) data clk s = Inr (on_message fmt ws data clk s))"
proof -
  have a: "on_message fmt ws data clk s = send ws (error_msg invalid_format (clk 0)) s"
    if "throws fmt s data" for data
  proof -
    from that obtain x where x: "try_body fmt ws (info c) data clk s = Inl x"
      using try_body_Inl by blast
    obtain e s' where "x = (e, s')" by (cases x)
    with x try_body_Inl_state [of fmt ws "info c" data clk s e s']
    show ?thesis using assms by (simp add: on_message_def)
  qed
  have b: "try_body fmt ws (info c) data clk s = Inr (on_message fmt ws data clk s)"
    if "\<not> throws fmt s data" for data
  proof (cases "try_body fmt ws (info c) data clk s")
    case (Inl x)
    with that show ?thesis using try_body_Inl by blast
  next
    case (Inr s')
    with assms show ?thesis by (simp add: on_message_def)
  qed
  have t: "throws fmt s None" by (simp add: throws_def)
  show ?thesis
    using a b a [OF t] by (simp add: send_def error_literal)
qed

text \<open>
  C7 as stated fails: the payloads \<^verbatim>\<open>null\<close> and \<^verbatim>\<open>{"type":"chat","text":5}\<close> parse, and are
  answered with the invalid-format error.
\<close>

theorem parsed_payload_error_counterexample:
  "on_message fmt0 1 (Some JNull) clk0 three_clients
     = send 1 (error_msg invalid_format (clk0 0)) three_clients
   \<and> on_message fmt0 1 (obj [(''type'', JStr ''chat''), (''text'', JNum 5)]) clk0 three_clients
     = send 1 (error_msg invalid_format (clk0 0)) three_clients"
  by (simp add: on_message_def try_body_def chat_case_def conn_three obj_def)

text \<open>The theorem at the run of three connections.\<close>

theorem parse_error_reply_witness:
  "on_message fmt0 1 None clk0 three_clients
     = send 1 (error_msg invalid_format (clk0 0)) three_clients
   \<and> conn (on_message fmt0 1 None clk0 three_clients) 1 = Some (new_client 1)
   \<and> throws fmt0 three_clients (obj [(''type'', JStr ''set_username''), (''username'', JBool True)])
   \<and> on_message fmt0 1 (obj [(''type'', JStr ''set_username''), (''username'', JBool True)])
        clk0 three_clients
     = send 1 (error_msg invalid_format (clk0 0)) three_clients"
proof -
  have h1: "conn three_clients 1 = Some (new_client 1)" by (simp add: conn_three)
  have t: "throws fmt0 three_clients
      (obj [(''type'', JStr ''set_username''), (''username'', JBool True)])"
    by (simp add: throws_def obj_def untrimmable_def)
  from parse_error_reply [OF h1, of fmt0 clk0] t show ?thesis
    by (simp add: conn_three send_def)
qed

section \<open>The user list\<close>

text \<open>
  C8. In every state the server reaches from its start by deliverable events, a
  \<^verbatim>\<open>get_users\<close> message has one effect: one \<^verbatim>\<open>user_list\<close> reply sent to the sender. Its
  \<^verbatim>\<open>totalUsers\<close> is the size of the registry, its \<^verbatim>\<open>users\<close> has one entry (id, username,
  connectedAt, ip) for each registered connection, in the order of the registry, and no
  two entries have the same id.
\<close>

theorem get_users_reply:
  assumes "trace fmt init es"
    and "conn (exec fmt es init) ws = Some c"
    and "field message ''type'' = Some (JStr ''get_users'')"
  shows "let s = exec fmt es init;
             users = map user_entry (client_values s);
             reply = user_list_msg users (length (clients s)) (clk 0)
         in on_message fmt ws (Some message) clk s = send ws reply s
            \<and> map_of reply ''users'' = Some (JArr users)
            \<and> map_of reply ''totalUsers'' = Some (id_num (length (clients s)))
            \<and> map Some (client_values s) = map (\<lambda>h. map_option info (conn s h)) (clients s)
            \<and> length users = length (clients s)
            \<and> distinct (map (\<lambda>u. field u ''id'') users)
            \<and> reply =
                [(''type'', JStr ''user_list''),
                 (''users'', JArr (map (\<lambda>client.
                     JObj [(''id'', JNum (of_nat (client_id client))),
                           (''username'', JStr (username client)),
                           (''connectedAt'', JStr (connectedAt client)),
                           (''ip'', JStr (ip client))]) (client_values s))),
                 (''totalUsers'', JNum (of_nat (length (clients s)))),
                 (''timestamp'', JStr (clk 0))]"
proof -
  let ?s = "exec fmt es init"
  from assms(1) have i: "inv ?s" by (rule inv_reachable)
  have ids: "map (\<lambda>u. field u ''id'') (map user_entry (client_values ?s))
      = map (\<lambda>n. Some (id_num n)) (map client_id (client_values ?s))"
    by (simp add: user_entry_def comp_def)
  have d: "distinct (map (\<lambda>u. field u ''id'') (map user_entry (client_values ?s)))"
    unfolding ids
    by (rule distinct_map [THEN iffD2]) (simp add: inj_on_def distinct_client_ids [OF i])
  have lit: "user_list_msg (map user_entry (client_values ?s)) (length (clients ?s)) (clk 0)
      = [(''type'', JStr ''user_list''),
         (''users'', JArr (map (\<lambda>client.
             JObj [(''id'', JNum (of_nat (client_id client))),
                   (''username'', JStr (username client)),
                   (''connectedAt'', JStr (connectedAt client)),
                   (''ip'', JStr (ip client))]) (client_values ?s))),
         (''totalUsers'', JNum (of_nat (length (clients ?s)))),
         (''timestamp'', JStr (clk 0))]"
    by (simp add: user_list_msg_def user_entry_def id_num_def)
  have rest: "on_message fmt ws (Some message) clk ?s
        = send ws (user_list_msg (map user_entry (client_values ?s)) (length (clients ?s)) (clk 0)) ?s
      \<and> map_of (user_list_msg (map user_entry (client_values ?s)) (length (clients ?s)) (clk 0))
          ''users'' = Some (JArr (map user_entry (client_values ?s)))
      \<and> map_of (user_list_msg (map user_entry (client_values ?s)) (length (clients ?s)) (clk 0))
          ''totalUsers'' = Some (id_num (length (clients ?s)))
      \<and> map Some (client_values ?s) = map (\<lambda>h. map_option info (conn ?s h)) (clients ?s)
      \<and> length (map user_entry (client_values ?s)) = length (clients ?s)
      \<and> distinct (map (\<lambda>u. field u ''id'') (map user_entry (client_values ?s)))"
    using get_users_eq [OF assms(2,3)] client_values_total [OF i] length_client_values [OF i] d
    by (simp add: user_list_msg_def)
  show ?thesis
    unfolding Let_def using rest lit by blast
qed

text \<open>The theorem at the run of three connections.\<close>

theorem get_users_reply_witness:
  "on_message fmt0 1 (obj [(''type'', JStr ''get_users'')]) clk0 three_clients
     = send 1 (user_list_msg
         [user_entry (info (new_client 1)), user_entry (info (new_client 2)),
          user_entry (info (new_client 3))] 3 (clk0 0)) three_clients"
proof -
  have h2: "conn (exec fmt0 three_connects init) 1 = Some (new_client 1)"
    using conn_three by (simp add: three_clients_def)
  have h3: "field (JObj [(''type'', JStr ''get_users'')]) ''type'' = Some (JStr ''get_users'')"
    by simp
  from get_users_reply [OF trace_three h2 h3, of clk0] show ?thesis
    by (simp add: Let_def three_clients_def [symmetric] client_values_three clients_three obj_def
        numeral_3_eq_3)
qed

section \<open>The join announcement\<close>

text \<open>
  C9. When the connection handler runs for a new \<^verbatim>\<open>ws\<close>, the messages sent to \<^verbatim>\<open>ws\<close> itself
  are the \<^verbatim>\<open>welcome\<close> with its id and then the \<^verbatim>\<open>user_joined\<close> announcement of its own join
  (its default name, its id) with \<^verbatim>\<open>acknowledged: true\<close> added; every other registered
  connection whose socket is open is sent that \<^verbatim>\<open>user_joined\<close> message, without the
  marker, once, and nothing else is sent.
\<close>

theorem join_announcement:
  assumes "ws \<notin> set (clients s)" and "distinct (clients s)"
  shows "let n = clientCounter s + 1;
             s' = on_connection ws clientIp clk s;
             welcome =
               [(''type'', JStr ''welcome''),
                (''message'', JStr (''Welcome to the WebSocket Server! Your ID: '' @ show_nat n)),
                (''clientId'', JNum (of_nat n)),
                (''timestamp'', JStr (clk 1))];
             joined =
               [(''type'', JStr ''user_joined''),
                (''message'', JStr (''User_'' @ show_nat n @ '' joined the chat'')),
                (''clientId'', JNum (of_nat n)),
                (''timestamp'', JStr (clk 2))]
         in inbox_of ws (new_out s s')
               = [welcome, joined @ [(''acknowledged'', JBool True)]]
            \<and> (\<forall>w. w \<noteq> ws \<longrightarrow> inbox_of w (new_out s s')
                  = (if w \<in> set (clients s) \<and> is_open s w then [joined] else []))"
proof -
  let ?n = "clientCounter s + 1"
  let ?s' = "on_connection ws clientIp clk s"
  let ?j = "user_joined_msg (''User_'' @ show_nat ?n) ?n (clk 2)"
  have out: "new_out s ?s' = (ws, welcome_msg ?n (clk 1))
       # deliveries ?j None s (clients s) @ [(ws, with_ack ?j)]"
    by (rule new_out_append) (simp add: on_connection_eq [OF assms(1)])
  have ack: "with_ack ?j = ?j @ [(''acknowledged'', JBool True)]"
    by (simp add: with_ack_def user_joined_msg_def)
  have key: "inbox_of w (new_out s ?s')
      = (if w = ws then [welcome_msg ?n (clk 1), ?j @ [(''acknowledged'', JBool True)]]
         else if w \<in> set (clients s) \<and> is_open s w then [?j] else [])" for w
    unfolding out ack by (rule join_inbox [OF assms])
  show ?thesis
    unfolding Let_def using key
    by (simp add: welcome_msg_def user_joined_msg_def id_num_def)
qed

text \<open>The theorem for a third connection joining two.\<close>

theorem join_announcement_witness:
  "inbox_of 3 (new_out two_clients (on_connection 3 ''::1'' clk0 two_clients))
     = [[(''type'', JStr ''welcome''),
         (''message'', JStr ''Welcome to the WebSocket Server! Your ID: 3''),
         (''clientId'', JNum 3),
         (''timestamp'', JStr (clk0 1))],
        [(''type'', JStr ''user_joined''),
         (''message'', JStr ''User_3 joined the chat''),
         (''clientId'', JNum 3),
         (''timestamp'', JStr (clk0 2)),
         (''acknowledged'', JBool True)]]
   \<and> inbox_of 1 (new_out two_clients (on_connection 3 ''::1'' clk0 two_clients))
     = [[(''type'', JStr ''user_joined''),
         (''message'', JStr ''User_3 joined the chat''),
         (''clientId'', JNum 3),
         (''timestamp'', JStr (clk0 2))]]"
proof -
  have c: "clients two_clients = [1, 2]" "clientCounter two_clients = 2"
    by (subst two_clients_eq, simp)+
  have o: "is_open two_clients 1"
    by (subst two_clients_eq) (simp add: is_open_def new_client_def)
  have h1: "3 \<notin> set (clients two_clients)" and h2: "distinct (clients two_clients)"
    by (simp_all add: c)
  from join_announcement [OF h1 h2, of "''::1''" clk0] o show ?thesis
    by (simp add: Let_def c show_nat_123)
qed

section \<open>Private messages with a falsy field\<close>

text \<open>
  C10. A \<^verbatim>\<open>private_message\<close> with both fields present in which \<^verbatim>\<open>text\<close> is the empty
  string or \<^verbatim>\<open>targetClientId\<close> is 0 leaves the whole state as it was: the guard tests the
  fields for truthiness, so there is no error reply, no delivery and no change.
\<close>

theorem private_message_falsy_dropped:
  assumes "field message ''type'' = Some (JStr ''private_message'')"
    and "field message ''targetClientId'' = Some k"
    and "field message ''text'' = Some t"
    and "t = JStr '''' \<or> k = JNum 0"
  shows "on_message fmt ws (Some message) clk s = s"
proof (cases "conn s ws")
  case None
  then show ?thesis by (simp add: on_message_def)
next
  case (Some c)
  from assms(1) have nn: "message \<noteq> JNull" by (rule type_not_null)
  from assms(2-4) have "private_message_case fmt ws (info c) message clk s = Inr s"
    by (auto simp: private_message_case_def)
  with Some nn assms(1) show ?thesis
    by (simp add: on_message_def try_body_def)
qed

text \<open>The theorem for an empty text and for the target 0.\<close>

theorem private_message_falsy_dropped_witness:
  "on_message fmt0 1 (obj [(''type'', JStr ''private_message''), (''targetClientId'', JNum 2),
       (''text'', JStr '''')]) clk0 three_clients = three_clients
   \<and> on_message fmt0 1 (obj [(''type'', JStr ''private_message''), (''targetClientId'', JNum 0),
       (''text'', JStr ''x'')]) clk0 three_clients = three_clients"
  using private_message_falsy_dropped [of "JObj [(''type'', JStr ''private_message''),
        (''targetClientId'', JNum 2), (''text'', JStr '''')]" "JNum 2" "JStr ''''" fmt0 1 clk0
        three_clients]
    private_message_falsy_dropped [of "JObj [(''type'', JStr ''private_message''),
        (''targetClientId'', JNum 0), (''text'', JStr ''x'')]" "JNum 0" "JStr ''x''" fmt0 1 clk0
        three_clients]
  by (simp add: obj_def)

end
